theory Spec2Isabelle
  imports Main
begin

section \<open>Widget production line\<close>

text \<open>
  A shallow embedding of the widget production line: the identifier generator, the
  widgets, Go's channels and wait groups, and the goroutines of the two versions of the
  program, the job-slot version (\<open>WidgetProductionConsumptionLine\<close>) and the older
  counter version (\<open>widgetProductionLine\<close>). Every goroutine is a program counter, a
  scheduler picks which goroutine takes the next atomic step, and a run is the list of
  the goroutines picked. Go's \<open>int\<close> is modelled by \<open>int\<close>: the counts are far below
  the 64-bit bounds whenever the channels of that capacity can be allocated at all, and
  allocation of a channel of a non-negative capacity is taken to succeed.
\<close>

subsection \<open>Identifier generator\<close>

definition ASCII :: string where
  "ASCII = ''abcdefghijklmnopqrstuvxyz0123456789''"

definition ID_LENGTH :: nat where
  "ID_LENGTH = 32"

text \<open>
  The random source is the sequence \<open>rand\<close> of raw values it will yield and the position
  \<open>pos\<close> of the next one. \<open>rand.Intn(n)\<close> yields a value in \<open>[0, n)\<close> and advances the
  source; it is called with \<open>n = len(ASCII)\<close> only, which is positive.
\<close>

definition Intn :: "(nat \<Rightarrow> nat) \<Rightarrow> nat \<Rightarrow> nat \<Rightarrow> nat \<times> nat" where
  "Intn rand pos n = (rand pos mod n, pos + 1)"

function idMaker_loop :: "(nat \<Rightarrow> nat) \<Rightarrow> nat \<Rightarrow> string \<Rightarrow> nat \<Rightarrow> string \<times> nat" where
  "idMaker_loop rand i buffer pos =
     (if i < ID_LENGTH then
        (if i = ID_LENGTH div 2 then idMaker_loop rand (i + 1) (buffer @ ''-'') pos
         else (case Intn rand pos (length ASCII) of
                 (r, pos') \<Rightarrow> idMaker_loop rand (i + 1) (buffer @ [ASCII ! r]) pos'))
      else (buffer, pos))"
  by pat_completeness auto
termination
  by (relation "measure (\<lambda>(rand, i, buffer, pos). ID_LENGTH - i)") (auto simp: ID_LENGTH_def)

definition idMaker :: "(nat \<Rightarrow> nat) \<Rightarrow> nat \<Rightarrow> string \<times> nat" where
  "idMaker rand pos = idMaker_loop rand 0 [] pos"

definition rand0 :: "nat \<Rightarrow> nat" where
  "rand0 k = 13 * k + 7"

definition lower_or_digit :: "char \<Rightarrow> bool" where
  "lower_or_digit c = (c \<in> set ''abcdefghijklmnopqrstuvwxyz0123456789'')"

subsection \<open>Widgets, producers and consumers\<close>

record Widget =
  id_W :: string
  source :: string
  time_W :: nat
  broken :: bool

datatype Producer = Producer (pname: string)

datatype Consumer = Consumer (cname: string)

text \<open>
  \<open>produce\<close> draws an identifier and reads the clock; it returns the widget and the new
  position of the random source.
\<close>

definition produce :: "(nat \<Rightarrow> nat) \<Rightarrow> Producer \<Rightarrow> bool \<Rightarrow> nat \<Rightarrow> nat \<Rightarrow> Widget \<times> nat" where
  "produce rand pr b pos now =
     (case idMaker rand pos of
        (i, pos') \<Rightarrow> (\<lparr>id_W = i, source = pname pr, time_W = now, broken = b\<rparr>, pos'))"

text \<open>What a consumer prints: one line for each widget consumed, and the line of the main goroutine.\<close>

datatype event =
    Consumes string Widget nat
  | FoundBroken string Widget
  | ExecutionStops

definition consume :: "Consumer \<Rightarrow> Widget \<Rightarrow> nat \<Rightarrow> event \<times> bool" where
  "consume con wid now =
     (if \<not> broken wid then Consumes (cname con) wid (now - time_W wid)
      else FoundBroken (cname con) wid,
      broken wid)"

text \<open>\<open>strconv.Itoa\<close>, for the names of the workers.\<close>

function digits :: "nat \<Rightarrow> string" where
  "digits n =
     (if n < 10 then [''0123456789'' ! n]
      else digits (n div 10) @ [''0123456789'' ! (n mod 10)])"
  by pat_completeness auto
termination
  by (relation "measure id") auto

definition Itoa :: "int \<Rightarrow> string" where
  "Itoa i = (if i < 0 then ''-'' @ digits (nat (- i)) else digits (nat i))"

function makeProducers :: "int \<Rightarrow> int \<Rightarrow> Producer list \<Rightarrow> Producer list" where
  "makeProducers i n producerTable =
     (if i < n then makeProducers (i + 1) n (producerTable @ [Producer (''producer_'' @ Itoa i)])
      else producerTable)"
  by pat_completeness auto
termination
  by (relation "measure (\<lambda>(i, n, t). nat (n - i))") auto

function makeConsumers :: "int \<Rightarrow> int \<Rightarrow> Consumer list \<Rightarrow> Consumer list" where
  "makeConsumers i n consumerTable =
     (if i < n then makeConsumers (i + 1) n (consumerTable @ [Consumer (''consumer_'' @ Itoa i)])
      else consumerTable)"
  by pat_completeness auto
termination
  by (relation "measure (\<lambda>(i, n, t). nat (n - i))") auto

subsection \<open>Channels and wait groups\<close>

text \<open>
  A buffered channel is its queue, its capacity and whether it is closed. Closing a
  closed channel and sending on a closed channel panic; a send on a full channel and a
  receive on an empty open channel block.
\<close>

datatype fault =
    MakechanSizeOutOfRange
  | OutOfMemory
  | CloseOfClosedChannel
  | SendOnClosedChannel
  | NegativeWaitGroupCounter
  | AllGoroutinesAsleep

record 'a chan =
  buf :: "'a list"
  cap :: nat
  closed :: bool

text \<open>
  \<open>make(chan T, n)\<close> is \<open>makechan\<close> of the Go runtime. It panics with
  \<open>makechan: size out of range\<close> when the size \<open>n\<close> is negative or the buffer, \<open>n\<close>
  elements of \<open>elemsize\<close> bytes, is larger than \<open>maxAlloc - hchanSize\<close>; on a 64-bit
  platform \<open>maxAlloc\<close> is \<open>2^48\<close> and the channel header has 96 bytes (a few more in
  later versions of the runtime, which does not move the largest widget channel). That test
  passed, the runtime allocates the header and the buffer, and the program dies with
  \<open>out of memory\<close> when the machine does not have the bytes: \<open>mem\<close> is the number of
  bytes the machine still has for the program. An \<open>int\<close> takes 8 bytes and a \<open>Widget\<close>,
  two strings of 16 bytes, a \<open>time.Time\<close> of 24 and a \<open>bool\<close> padded to 8, takes 64.
\<close>

definition maxAlloc :: int where
  "maxAlloc = 281474976710656"

definition hchanSize :: int where
  "hchanSize = 96"

definition sizeof_int :: int where
  "sizeof_int = 8"

definition sizeof_Widget :: int where
  "sizeof_Widget = 64"

definition make_chan :: "int \<Rightarrow> int \<Rightarrow> int \<Rightarrow> fault + 'a chan" where
  "make_chan mem elemsize n =
     (if n < 0 \<or> maxAlloc - hchanSize < elemsize * n then Inl MakechanSizeOutOfRange
      else if mem < hchanSize + elemsize * n then Inl OutOfMemory
      else Inr \<lparr>buf = [], cap = nat n, closed = False\<rparr>)"

datatype 'a sent = Sent "'a chan" | SendBlocks | SendPanics

definition chan_send :: "'a \<Rightarrow> 'a chan \<Rightarrow> 'a sent" where
  "chan_send x ch =
     (if closed ch then SendPanics
      else if length (buf ch) < cap ch then Sent (ch\<lparr>buf := buf ch @ [x]\<rparr>)
      else SendBlocks)"

datatype 'a received = Received 'a "'a chan" | ReceivedClosed | ReceiveBlocks

definition chan_recv :: "'a chan \<Rightarrow> 'a received" where
  "chan_recv ch =
     (case buf ch of
        x # xs \<Rightarrow> Received x (ch\<lparr>buf := xs\<rparr>)
      | [] \<Rightarrow> if closed ch then ReceivedClosed else ReceiveBlocks)"

definition chan_close :: "'a chan \<Rightarrow> 'a chan option" where
  "chan_close ch = (if closed ch then None else Some (ch\<lparr>closed := True\<rparr>))"

text \<open>
  The channels of type \<open>chan struct{}\<close> are never sent on: they are only closed and
  received from, so such a channel is the flag that says whether it is closed, and a
  receive on it is possible exactly when it is.
\<close>

definition signal_close :: "bool \<Rightarrow> bool option" where
  "signal_close c = (if c then None else Some True)"

text \<open>
  A wait group is its counter: \<open>Add\<close> adds to it, \<open>Done\<close> takes one off and panics when
  the counter becomes negative, and \<open>Wait\<close> blocks until it is zero.
\<close>

definition wg_Done :: "int \<Rightarrow> int option" where
  "wg_Done n = (if n - 1 < 0 then None else Some (n - 1))"

subsection \<open>The job-slot production line\<close>

text \<open>
  A configuration is the four arguments of \<open>WidgetProductionConsumptionLine\<close>, which
  \<open>main\<close> reads from the flags \<open>-n\<close>, \<open>-p\<close>, \<open>-c\<close> and \<open>-k\<close>, with what the program
  takes from its machine: the random source and the bytes of memory it can have for
  its two buffered channels. Only these two, whose size is the number of widgets, are
  charged to the memory. The numbers are Go's \<open>int\<close>, taken as integers: the program
  counts from 0 or 1 up to one of its arguments, one at a time, and a channel of more
  than \<open>2^45\<close> widgets is never made.
\<close>

record config =
  numWidgets :: int
  numProducers :: int
  numConsumers :: int
  numKth :: int
  rand :: "nat \<Rightarrow> nat"
  memory :: int

definition producerTable :: "config \<Rightarrow> Producer list" where
  "producerTable cfg = makeProducers 0 (numProducers cfg) []"

definition consumerTable :: "config \<Rightarrow> Consumer list" where
  "consumerTable cfg = makeConsumers 0 (numConsumers cfg) []"

text \<open>
  The program points of the goroutines. The main goroutine runs
  \<open>WidgetProductionConsumptionLine\<close>; one goroutine runs \<open>productionLine\<close> and one
  \<open>consumptionLine\<close>, and each starts one goroutine for every worker of its table. A
  producer that has taken the slot \<open>i\<close> from the job channel is at \<open>P_select i\<close>, and at
  \<open>P_send i w\<close> once it has made the widget \<open>w\<close> for it.
\<close>

datatype main_point =
    M_go_production
  | M_go_consumption
  | M_if
  | M_recv_broken
  | M_println
  | M_close_quit
  | M_wait
  | M_return

datatype production_point =
    PL_idle
  | PL_add
  | PL_go nat
  | PL_wait
  | PL_close
  | PL_done
  | PL_exit

datatype consumption_point =
    CL_idle
  | CL_add
  | CL_go nat
  | CL_wait
  | CL_done
  | CL_exit

datatype producer_point =
    P_range
  | P_select int
  | P_send int Widget
  | P_done
  | P_exit

datatype consumer_point =
    C_range
  | C_select Widget
  | C_consume Widget
  | C_close_broken
  | C_close_done
  | C_done
  | C_exit

text \<open>
  The state of a run. \<open>pushed\<close> records every send on the widget channel with the slot it
  came from, and \<open>raised\<close> counts the executions of \<open>close(brokenWidgetChannel)\<close>; the
  program does not read either. \<open>crashed\<close> is the panic that ended the program, if any.
\<close>

record line =
  jobChannel :: "int chan"
  widgetChannel :: "Widget chan"
  quitChannel :: bool
  brokenWidgetChannel :: bool
  doneChannel :: bool
  wg :: int
  productionWaitGroup :: int
  consumptionWaitGroup :: int
  main_pc :: main_point
  production_pc :: production_point
  consumption_pc :: consumption_point
  producers :: "(Producer \<times> producer_point) list"
  consumers :: "(Consumer \<times> consumer_point) list"
  rpos :: nat
  clock :: nat
  stdout :: "event list"
  pushed :: "(int \<times> Widget) list"
  raised :: nat
  crashed :: "fault option"

definition crash :: "fault \<Rightarrow> line \<Rightarrow> line option" where
  "crash f s = Some (s\<lparr>crashed := Some f\<rparr>)"

text \<open>
  The main goroutine, up to the first \<open>go\<close> statement: nothing else runs yet. It makes
  the tables and the channels, the job channel first and the widget channel with the
  memory the job channel has left, racks up the jobs \<open>1..numWidgets\<close>, closes the job
  channel and adds 2 to the wait group \<open>wg\<close>. The result is the panic that ends the
  program there, or the state at the first \<open>go\<close> statement.
\<close>

function rackUp :: "int \<Rightarrow> int \<Rightarrow> int chan \<Rightarrow> fault + int chan" where
  "rackUp i n jobs =
     (if i \<le> n then
        (case chan_send i jobs of
           Sent jobs' \<Rightarrow> rackUp (i + 1) n jobs'
         | SendBlocks \<Rightarrow> Inl AllGoroutinesAsleep
         | SendPanics \<Rightarrow> Inl SendOnClosedChannel)
      else Inr jobs)"
  by pat_completeness auto
termination
  by (relation "measure (\<lambda>(i, n, jobs). nat (n + 1 - i))") auto

definition WidgetProductionConsumptionLine_init :: "config \<Rightarrow> fault + line" where
  "WidgetProductionConsumptionLine_init cfg =
     (case make_chan (memory cfg) sizeof_int (numWidgets cfg) of
        Inl f \<Rightarrow> Inl f
      | Inr jobs \<Rightarrow>
     (case make_chan (memory cfg - (hchanSize + sizeof_int * numWidgets cfg)) sizeof_Widget
             (numWidgets cfg) of
        Inl f \<Rightarrow> Inl f
      | Inr widgets \<Rightarrow>
     (case rackUp 1 (numWidgets cfg) jobs of
        Inl f \<Rightarrow> Inl f
      | Inr jobs' \<Rightarrow>
     (case chan_close jobs' of
        None \<Rightarrow> Inl CloseOfClosedChannel
      | Some jobs'' \<Rightarrow>
          Inr \<lparr>jobChannel = jobs'', widgetChannel = widgets, quitChannel = False,
               brokenWidgetChannel = False, doneChannel = False, wg = 2,
               productionWaitGroup = 0, consumptionWaitGroup = 0,
               main_pc = M_go_production, production_pc = PL_idle, consumption_pc = CL_idle,
               producers = [], consumers = [], rpos = 0, clock = 0, stdout = [],
               pushed = [], raised = 0, crashed = None\<rparr>))))"

text \<open>The main goroutine from the first \<open>go\<close> statement on.\<close>

definition WidgetProductionConsumptionLine_step :: "config \<Rightarrow> line \<Rightarrow> line option" where
  "WidgetProductionConsumptionLine_step cfg s =
     (case main_pc s of
        M_go_production \<Rightarrow> Some (s\<lparr>production_pc := PL_add, main_pc := M_go_consumption\<rparr>)
      | M_go_consumption \<Rightarrow> Some (s\<lparr>consumption_pc := CL_add, main_pc := M_if\<rparr>)
      | M_if \<Rightarrow> Some (s\<lparr>main_pc := (if numKth cfg > 0 then M_recv_broken else M_wait)\<rparr>)
      | M_recv_broken \<Rightarrow>
          if brokenWidgetChannel s then Some (s\<lparr>main_pc := M_println\<rparr>) else None
      | M_println \<Rightarrow> Some (s\<lparr>stdout := stdout s @ [ExecutionStops], main_pc := M_close_quit\<rparr>)
      | M_close_quit \<Rightarrow>
          (case signal_close (quitChannel s) of
             None \<Rightarrow> crash CloseOfClosedChannel s
           | Some q \<Rightarrow> Some (s\<lparr>quitChannel := q, main_pc := M_wait\<rparr>))
      | M_wait \<Rightarrow> if wg s = 0 then Some (s\<lparr>main_pc := M_return\<rparr>) else None
      | M_return \<Rightarrow> None)"

text \<open>
  \<open>productionLine\<close>: it adds the number of producers to its wait group, starts one
  goroutine for each producer, waits for them, and on return closes the widget channel
  and then signals the main wait group (the deferred calls, last first).
\<close>

definition productionLine_step :: "config \<Rightarrow> line \<Rightarrow> line option" where
  "productionLine_step cfg s =
     (case production_pc s of
        PL_idle \<Rightarrow> None
      | PL_add \<Rightarrow>
          Some (s\<lparr>productionWaitGroup := productionWaitGroup s + int (length (producerTable cfg)),
                  production_pc := PL_go 0\<rparr>)
      | PL_go j \<Rightarrow>
          if j < length (producerTable cfg)
          then Some (s\<lparr>producers := producers s @ [(producerTable cfg ! j, P_range)],
                       production_pc := PL_go (j + 1)\<rparr>)
          else Some (s\<lparr>production_pc := PL_wait\<rparr>)
      | PL_wait \<Rightarrow>
          if productionWaitGroup s = 0 then Some (s\<lparr>production_pc := PL_close\<rparr>) else None
      | PL_close \<Rightarrow>
          (case chan_close (widgetChannel s) of
             None \<Rightarrow> crash CloseOfClosedChannel s
           | Some ch \<Rightarrow> Some (s\<lparr>widgetChannel := ch, production_pc := PL_done\<rparr>))
      | PL_done \<Rightarrow>
          (case wg_Done (wg s) of
             None \<Rightarrow> crash NegativeWaitGroupCounter s
           | Some n \<Rightarrow> Some (s\<lparr>wg := n, production_pc := PL_exit\<rparr>))
      | PL_exit \<Rightarrow> None)"

text \<open>
  The goroutine of producer \<open>j\<close>. \<open>for i := range jobChannel\<close> takes the next slot or
  leaves the loop when the channel is closed and empty. The \<open>select\<close> has one receive
  case and a default: it returns when the quit channel is closed and otherwise makes the
  widget, broken exactly when \<open>numKth == i\<close>. The send on the widget channel follows.
\<close>

definition producer_step :: "config \<Rightarrow> nat \<Rightarrow> line \<Rightarrow> line option" where
  "producer_step cfg j s =
     (if j < length (producers s) then
        (case producers s ! j of (workingProducer, pt) \<Rightarrow>
           (case pt of
              P_range \<Rightarrow>
                (case chan_recv (jobChannel s) of
                   Received i ch \<Rightarrow>
                     Some (s\<lparr>jobChannel := ch,
                             producers := (producers s)[j := (workingProducer, P_select i)]\<rparr>)
                 | ReceivedClosed \<Rightarrow>
                     Some (s\<lparr>producers := (producers s)[j := (workingProducer, P_done)]\<rparr>)
                 | ReceiveBlocks \<Rightarrow> None)
            | P_select i \<Rightarrow>
                if quitChannel s
                then Some (s\<lparr>producers := (producers s)[j := (workingProducer, P_done)]\<rparr>)
                else (case produce (rand cfg) workingProducer (numKth cfg = i) (rpos s) (clock s) of
                        (w, pos') \<Rightarrow>
                          Some (s\<lparr>rpos := pos', clock := clock s + 1,
                                  producers := (producers s)[j := (workingProducer, P_send i w)]\<rparr>))
            | P_send i w \<Rightarrow>
                (case chan_send w (widgetChannel s) of
                   Sent ch \<Rightarrow>
                     Some (s\<lparr>widgetChannel := ch, pushed := pushed s @ [(i, w)],
                             producers := (producers s)[j := (workingProducer, P_range)]\<rparr>)
                 | SendBlocks \<Rightarrow> None
                 | SendPanics \<Rightarrow> crash SendOnClosedChannel s)
            | P_done \<Rightarrow>
                (case wg_Done (productionWaitGroup s) of
                   None \<Rightarrow> crash NegativeWaitGroupCounter s
                 | Some n \<Rightarrow>
                     Some (s\<lparr>productionWaitGroup := n,
                             producers := (producers s)[j := (workingProducer, P_exit)]\<rparr>))
            | P_exit \<Rightarrow> None))
      else None)"

text \<open>\<open>consumptionLine\<close>: as \<open>productionLine\<close>, with no channel to close.\<close>

definition consumptionLine_step :: "config \<Rightarrow> line \<Rightarrow> line option" where
  "consumptionLine_step cfg s =
     (case consumption_pc s of
        CL_idle \<Rightarrow> None
      | CL_add \<Rightarrow>
          Some (s\<lparr>consumptionWaitGroup := consumptionWaitGroup s + int (length (consumerTable cfg)),
                  consumption_pc := CL_go 0\<rparr>)
      | CL_go j \<Rightarrow>
          if j < length (consumerTable cfg)
          then Some (s\<lparr>consumers := consumers s @ [(consumerTable cfg ! j, C_range)],
                       consumption_pc := CL_go (j + 1)\<rparr>)
          else Some (s\<lparr>consumption_pc := CL_wait\<rparr>)
      | CL_wait \<Rightarrow>
          if consumptionWaitGroup s = 0 then Some (s\<lparr>consumption_pc := CL_done\<rparr>) else None
      | CL_done \<Rightarrow>
          (case wg_Done (wg s) of
             None \<Rightarrow> crash NegativeWaitGroupCounter s
           | Some n \<Rightarrow> Some (s\<lparr>wg := n, consumption_pc := CL_exit\<rparr>))
      | CL_exit \<Rightarrow> None)"

text \<open>
  The goroutine of consumer \<open>j\<close>. It takes the next widget or leaves the loop when the
  widget channel is closed and empty; the \<open>select\<close> returns when the done channel is
  closed and otherwise the widget is consumed. After a broken widget the consumer closes
  the broken-widget channel, then the done channel, and returns.
\<close>

definition consumer_step :: "config \<Rightarrow> nat \<Rightarrow> line \<Rightarrow> line option" where
  "consumer_step cfg j s =
     (if j < length (consumers s) then
        (case consumers s ! j of (workingConsumer, pt) \<Rightarrow>
           (case pt of
              C_range \<Rightarrow>
                (case chan_recv (widgetChannel s) of
                   Received w ch \<Rightarrow>
                     Some (s\<lparr>widgetChannel := ch,
                             consumers := (consumers s)[j := (workingConsumer, C_select w)]\<rparr>)
                 | ReceivedClosed \<Rightarrow>
                     Some (s\<lparr>consumers := (consumers s)[j := (workingConsumer, C_done)]\<rparr>)
                 | ReceiveBlocks \<Rightarrow> None)
            | C_select w \<Rightarrow>
                if doneChannel s
                then Some (s\<lparr>consumers := (consumers s)[j := (workingConsumer, C_done)]\<rparr>)
                else Some (s\<lparr>consumers := (consumers s)[j := (workingConsumer, C_consume w)]\<rparr>)
            | C_consume w \<Rightarrow>
                (case consume workingConsumer w (clock s) of
                   (e, b) \<Rightarrow>
                     Some (s\<lparr>stdout := stdout s @ [e], clock := clock s + 1,
                             consumers := (consumers s)
                               [j := (workingConsumer, if b then C_close_broken else C_range)]\<rparr>))
            | C_close_broken \<Rightarrow>
                (case signal_close (brokenWidgetChannel s) of
                   None \<Rightarrow> crash CloseOfClosedChannel (s\<lparr>raised := raised s + 1\<rparr>)
                 | Some b \<Rightarrow>
                     Some (s\<lparr>brokenWidgetChannel := b, raised := raised s + 1,
                             consumers := (consumers s)[j := (workingConsumer, C_close_done)]\<rparr>))
            | C_close_done \<Rightarrow>
                (case signal_close (doneChannel s) of
                   None \<Rightarrow> crash CloseOfClosedChannel s
                 | Some d \<Rightarrow>
                     Some (s\<lparr>doneChannel := d,
                             consumers := (consumers s)[j := (workingConsumer, C_done)]\<rparr>))
            | C_done \<Rightarrow>
                (case wg_Done (consumptionWaitGroup s) of
                   None \<Rightarrow> crash NegativeWaitGroupCounter s
                 | Some n \<Rightarrow>
                     Some (s\<lparr>consumptionWaitGroup := n,
                             consumers := (consumers s)[j := (workingConsumer, C_exit)]\<rparr>))
            | C_exit \<Rightarrow> None))
      else None)"

text \<open>
  One step of the goroutine the scheduler picks; \<open>None\<close> when that goroutine cannot move
  (it is blocked, has ended or has not been started). Nothing moves after a panic or
  after the main goroutine has returned: the program has ended.
\<close>

datatype goroutine =
    Main
  | ProductionLine
  | ConsumptionLine
  | ProducerN nat
  | ConsumerN nat

definition step :: "config \<Rightarrow> goroutine \<Rightarrow> line \<Rightarrow> line option" where
  "step cfg g s =
     (if crashed s \<noteq> None \<or> main_pc s = M_return then None
      else (case g of
              Main \<Rightarrow> WidgetProductionConsumptionLine_step cfg s
            | ProductionLine \<Rightarrow> productionLine_step cfg s
            | ConsumptionLine \<Rightarrow> consumptionLine_step cfg s
            | ProducerN j \<Rightarrow> producer_step cfg j s
            | ConsumerN j \<Rightarrow> consumer_step cfg j s))"

fun exec :: "config \<Rightarrow> goroutine list \<Rightarrow> line \<Rightarrow> line option" where
  "exec cfg [] s = Some s"
| "exec cfg (g # gs) s = (case step cfg g s of None \<Rightarrow> None | Some s' \<Rightarrow> exec cfg gs s')"

text \<open>
  A run of the program under a schedule: the setup, then the scheduled steps. The result
  is \<open>None\<close> when the schedule picks a goroutine that cannot move.
\<close>

definition run :: "config \<Rightarrow> goroutine list \<Rightarrow> line option" where
  "run cfg sched =
     (case WidgetProductionConsumptionLine_init cfg of
        Inl f \<Rightarrow> None
      | Inr s0 \<Rightarrow> exec cfg sched s0)"

definition goroutines :: "line \<Rightarrow> goroutine list" where
  "goroutines s =
     Main # ProductionLine # ConsumptionLine #
     map ProducerN [0..<length (producers s)] @ map ConsumerN [0..<length (consumers s)]"

text \<open>No goroutine can move.\<close>

definition stuck :: "config \<Rightarrow> line \<Rightarrow> bool" where
  "stuck cfg s = list_all (\<lambda>g. step cfg g s = None) (goroutines s)"

text \<open>What a run has done, read from its state.\<close>

definition produced :: "line \<Rightarrow> nat" where
  "produced s = length (pushed s)"

fun is_report :: "event \<Rightarrow> bool" where
  "is_report ExecutionStops = False"
| "is_report _ = True"

fun is_broken_report :: "event \<Rightarrow> bool" where
  "is_broken_report (FoundBroken c w) = True"
| "is_broken_report _ = False"

definition consumed :: "line \<Rightarrow> nat" where
  "consumed s = length (filter is_report (stdout s))"

definition broken_reports :: "line \<Rightarrow> nat" where
  "broken_reports s = length (filter is_broken_report (stdout s))"

subsection \<open>Invariants of the job-slot production line\<close>

text \<open>
  Counting functions on the program points of the workers. A sum of one of them over the
  producers (or the consumers) counts the workers at the points it marks.
\<close>

fun p_alive :: "producer_point \<Rightarrow> int" where
  "p_alive P_exit = 0"
| "p_alive _ = 1"

fun p_holding :: "producer_point \<Rightarrow> int" where
  "p_holding (P_select i) = 1"
| "p_holding (P_send i w) = 1"
| "p_holding _ = 0"

fun p_finished :: "producer_point \<Rightarrow> int" where
  "p_finished P_done = 1"
| "p_finished P_exit = 1"
| "p_finished _ = 0"

fun p_slot :: "(int \<Rightarrow> bool) \<Rightarrow> producer_point \<Rightarrow> int" where
  "p_slot Q (P_select i) = (if Q i then 1 else 0)"
| "p_slot Q (P_send i w) = (if Q i then 1 else 0)"
| "p_slot Q _ = 0"

fun p_ok :: "config \<Rightarrow> producer_point \<Rightarrow> bool" where
  "p_ok cfg (P_select i) = (1 \<le> i \<and> i \<le> numWidgets cfg)"
| "p_ok cfg (P_send i w) = (1 \<le> i \<and> i \<le> numWidgets cfg \<and> broken w = (numKth cfg = i))"
| "p_ok cfg _ = True"

fun c_alive :: "consumer_point \<Rightarrow> int" where
  "c_alive C_exit = 0"
| "c_alive _ = 1"

fun c_holding :: "consumer_point \<Rightarrow> int" where
  "c_holding (C_select w) = 1"
| "c_holding (C_consume w) = 1"
| "c_holding _ = 0"

fun c_finished :: "consumer_point \<Rightarrow> int" where
  "c_finished C_done = 1"
| "c_finished C_exit = 1"
| "c_finished _ = 0"

fun c_token :: "consumer_point \<Rightarrow> int" where
  "c_token (C_select w) = (if broken w then 1 else 0)"
| "c_token (C_consume w) = (if broken w then 1 else 0)"
| "c_token C_close_broken = 1"
| "c_token _ = 0"

fun c_closing_broken :: "consumer_point \<Rightarrow> int" where
  "c_closing_broken C_close_broken = 1"
| "c_closing_broken _ = 0"

fun c_closing_done :: "consumer_point \<Rightarrow> int" where
  "c_closing_done C_close_done = 1"
| "c_closing_done _ = 0"

definition psum :: "(producer_point \<Rightarrow> int) \<Rightarrow> line \<Rightarrow> int" where
  "psum f s = sum_list (map (\<lambda>x. f (snd x)) (producers s))"

definition csum :: "(consumer_point \<Rightarrow> int) \<Rightarrow> line \<Rightarrow> int" where
  "csum f s = sum_list (map (\<lambda>x. f (snd x)) (consumers s))"

definition count :: "('a \<Rightarrow> bool) \<Rightarrow> 'a list \<Rightarrow> int" where
  "count Q xs = sum_list (map (\<lambda>x. if Q x then 1 else 0) xs)"

definition flag :: "bool \<Rightarrow> int" where
  "flag b = (if b then 1 else 0)"

text \<open>The next slot of the job channel: the slots below it have been taken.\<close>

definition next_job :: "config \<Rightarrow> line \<Rightarrow> int" where
  "next_job cfg s = numWidgets cfg + 1 - int (length (buf (jobChannel s)))"

text \<open>
  How the goroutines stand to each other: which workers exist at each point of the two
  lines, what the wait groups count, and when the channels are closed.
\<close>

fun pl_started :: "config \<Rightarrow> production_point \<Rightarrow> nat" where
  "pl_started cfg PL_idle = 0"
| "pl_started cfg PL_add = 0"
| "pl_started cfg (PL_go j) = j"
| "pl_started cfg _ = length (producerTable cfg)"

fun pl_added :: "config \<Rightarrow> production_point \<Rightarrow> int" where
  "pl_added cfg PL_idle = 0"
| "pl_added cfg PL_add = 0"
| "pl_added cfg _ = int (length (producerTable cfg))"

fun pl_waited :: "production_point \<Rightarrow> bool" where
  "pl_waited PL_close = True"
| "pl_waited PL_done = True"
| "pl_waited PL_exit = True"
| "pl_waited _ = False"

fun pl_closed :: "production_point \<Rightarrow> bool" where
  "pl_closed PL_done = True"
| "pl_closed PL_exit = True"
| "pl_closed _ = False"

fun cl_started :: "config \<Rightarrow> consumption_point \<Rightarrow> nat" where
  "cl_started cfg CL_idle = 0"
| "cl_started cfg CL_add = 0"
| "cl_started cfg (CL_go j) = j"
| "cl_started cfg _ = length (consumerTable cfg)"

fun cl_added :: "config \<Rightarrow> consumption_point \<Rightarrow> int" where
  "cl_added cfg CL_idle = 0"
| "cl_added cfg CL_add = 0"
| "cl_added cfg _ = int (length (consumerTable cfg))"

fun cl_waited :: "consumption_point \<Rightarrow> bool" where
  "cl_waited CL_done = True"
| "cl_waited CL_exit = True"
| "cl_waited _ = False"

fun m_spawned :: "main_point \<Rightarrow> nat" where
  "m_spawned M_go_production = 0"
| "m_spawned M_go_consumption = 1"
| "m_spawned _ = 2"

fun m_waiting_broken :: "main_point \<Rightarrow> bool" where
  "m_waiting_broken M_recv_broken = True"
| "m_waiting_broken M_println = True"
| "m_waiting_broken M_close_quit = True"
| "m_waiting_broken _ = False"

fun m_seen_broken :: "main_point \<Rightarrow> bool" where
  "m_seen_broken M_println = True"
| "m_seen_broken M_close_quit = True"
| "m_seen_broken M_wait = True"
| "m_seen_broken M_return = True"
| "m_seen_broken _ = False"

definition structure_inv :: "config \<Rightarrow> line \<Rightarrow> bool" where
  "structure_inv cfg s =
     (closed (jobChannel s) \<and>
      cap (widgetChannel s) = nat (numWidgets cfg) \<and>
      length (producers s) = pl_started cfg (production_pc s) \<and>
      length (producers s) \<le> length (producerTable cfg) \<and>
      productionWaitGroup s = psum p_alive s + pl_added cfg (production_pc s) - int (length (producers s)) \<and>
      (pl_waited (production_pc s) \<longrightarrow> psum p_alive s = 0) \<and>
      closed (widgetChannel s) = pl_closed (production_pc s) \<and>
      length (consumers s) = cl_started cfg (consumption_pc s) \<and>
      length (consumers s) \<le> length (consumerTable cfg) \<and>
      consumptionWaitGroup s = csum c_alive s + cl_added cfg (consumption_pc s) - int (length (consumers s)) \<and>
      (cl_waited (consumption_pc s) \<longrightarrow> csum c_alive s = 0) \<and>
      wg s = flag (production_pc s \<noteq> PL_exit) + flag (consumption_pc s \<noteq> CL_exit) \<and>
      (production_pc s = PL_idle) = (m_spawned (main_pc s) < 1) \<and>
      (consumption_pc s = CL_idle) = (m_spawned (main_pc s) < 2) \<and>
      (main_pc s = M_return \<longrightarrow> wg s = 0) \<and>
      (m_waiting_broken (main_pc s) \<longrightarrow> 0 < numKth cfg) \<and>
      (m_seen_broken (main_pc s) \<and> 0 < numKth cfg \<longrightarrow> brokenWidgetChannel s) \<and>
      quitChannel s = (0 < numKth cfg \<and> (main_pc s = M_wait \<or> main_pc s = M_return)))"

text \<open>
  The slots: for any property \<open>Q\<close> of slot numbers, the slots with \<open>Q\<close> still in the job
  channel, held by a producer or pushed are at most the slots of \<open>1..numWidgets\<close> with
  \<open>Q\<close>, and all of them while the quit channel is open.
\<close>

definition slots :: "(int \<Rightarrow> bool) \<Rightarrow> line \<Rightarrow> int" where
  "slots Q s =
     count Q (buf (jobChannel s)) + psum (p_slot Q) s + count (\<lambda>x. Q (fst x)) (pushed s)"

definition slot_inv :: "config \<Rightarrow> (int \<Rightarrow> bool) \<Rightarrow> line \<Rightarrow> bool" where
  "slot_inv cfg Q s =
     (slots Q s \<le> count Q [1..numWidgets cfg] \<and>
      (\<not> quitChannel s \<longrightarrow> slots Q s = count Q [1..numWidgets cfg]))"

definition jobs_inv :: "config \<Rightarrow> line \<Rightarrow> bool" where
  "jobs_inv cfg s =
     (1 \<le> next_job cfg s \<and>
      buf (jobChannel s) = [next_job cfg s..numWidgets cfg] \<and>
      list_all (\<lambda>x. p_ok cfg (snd x)) (producers s) \<and>
      list_all (\<lambda>x. 1 \<le> fst x \<and> fst x \<le> numWidgets cfg \<and> broken (snd x) = (numKth cfg = fst x))
        (pushed s))"

text \<open>
  The broken widget: every pushed widget of slot \<open>numKth\<close> is in the widget channel, in
  the hands of a consumer that has not yet closed the broken-widget channel, or that
  channel is closed. The done channel is closed by the consumer that closed the
  broken-widget channel.
\<close>

definition token_inv :: "config \<Rightarrow> line \<Rightarrow> bool" where
  "token_inv cfg s =
     (count broken (buf (widgetChannel s)) + csum c_token s + flag (brokenWidgetChannel s) =
        count (\<lambda>x. fst x = numKth cfg) (pushed s) \<and>
      csum c_closing_done s + flag (doneChannel s) = flag (brokenWidgetChannel s) \<and>
      int (broken_reports s) = csum c_closing_broken s + flag (brokenWidgetChannel s) \<and>
      int (raised s) = flag (brokenWidgetChannel s))"

text \<open>
  The widgets: every pushed widget is in the widget channel, in the hands of a consumer
  or reported, unless a consumer dropped it after the done channel was closed. A worker
  that left its loop while the channel that stops it was open left it at the end of its
  input.
\<close>

definition widget_inv :: "config \<Rightarrow> line \<Rightarrow> bool" where
  "widget_inv cfg s =
     (int (length (buf (widgetChannel s))) + csum c_holding s + int (consumed s)
        \<le> int (length (pushed s)) \<and>
      (\<not> doneChannel s \<longrightarrow>
         int (length (buf (widgetChannel s))) + csum c_holding s + int (consumed s)
           = int (length (pushed s))) \<and>
      (\<not> quitChannel s \<and> 0 < psum p_finished s \<longrightarrow> buf (jobChannel s) = []) \<and>
      (\<not> doneChannel s \<and> 0 < csum c_finished s \<longrightarrow>
         buf (widgetChannel s) = [] \<and> closed (widgetChannel s)))"

text \<open>
  Once the widget of slot \<open>numKth\<close> is pushed, the slots below it that are not pushed
  are fewer than the producers.
\<close>

definition below_inv :: "config \<Rightarrow> line \<Rightarrow> bool" where
  "below_inv cfg s =
     (1 \<le> count (\<lambda>x. fst x = numKth cfg) (pushed s) \<longrightarrow>
        count (\<lambda>i. i < numKth cfg) [1..numWidgets cfg] - (int (length (producerTable cfg)) - 1)
          \<le> count (\<lambda>x. fst x < numKth cfg) (pushed s))"

definition line_inv :: "config \<Rightarrow> line \<Rightarrow> bool" where
  "line_inv cfg s =
     (crashed s = None \<and> structure_inv cfg s \<and> jobs_inv cfg s \<and>
      slot_inv cfg (\<lambda>i. True) s \<and> slot_inv cfg (\<lambda>i. i = numKth cfg) s \<and>
      slot_inv cfg (\<lambda>i. i < numKth cfg) s \<and>
      token_inv cfg s \<and> widget_inv cfg s \<and> below_inv cfg s)"

subsection \<open>A bound on the length of a run\<close>

text \<open>
  Every step of a goroutine lowers the potential of the state: the sum of a rank for the
  program point of every goroutine and a weight for every job and widget still in a
  channel, which pays for the steps that will handle it.
\<close>

fun m_rank :: "main_point \<Rightarrow> int" where
  "m_rank M_go_production = 8"
| "m_rank M_go_consumption = 7"
| "m_rank M_if = 6"
| "m_rank M_recv_broken = 5"
| "m_rank M_println = 4"
| "m_rank M_close_quit = 3"
| "m_rank M_wait = 2"
| "m_rank M_return = 1"

fun pl_rank :: "config \<Rightarrow> production_point \<Rightarrow> int" where
  "pl_rank cfg PL_idle = 5 + 3 * int (length (producerTable cfg))"
| "pl_rank cfg PL_add = 5 + 3 * int (length (producerTable cfg))"
| "pl_rank cfg (PL_go j) = 4 + 3 * int (length (producerTable cfg) - j)"
| "pl_rank cfg PL_wait = 3"
| "pl_rank cfg PL_close = 2"
| "pl_rank cfg PL_done = 1"
| "pl_rank cfg PL_exit = 0"

fun cl_rank :: "config \<Rightarrow> consumption_point \<Rightarrow> int" where
  "cl_rank cfg CL_idle = 4 + 5 * int (length (consumerTable cfg))"
| "cl_rank cfg CL_add = 4 + 5 * int (length (consumerTable cfg))"
| "cl_rank cfg (CL_go j) = 3 + 5 * int (length (consumerTable cfg) - j)"
| "cl_rank cfg CL_wait = 2"
| "cl_rank cfg CL_done = 1"
| "cl_rank cfg CL_exit = 0"

fun p_rank :: "producer_point \<Rightarrow> int" where
  "p_rank P_range = 2"
| "p_rank (P_select i) = 7"
| "p_rank (P_send i w) = 6"
| "p_rank P_done = 1"
| "p_rank P_exit = 0"

fun c_rank :: "consumer_point \<Rightarrow> int" where
  "c_rank C_range = 4"
| "c_rank (C_select w) = 6"
| "c_rank (C_consume w) = 5"
| "c_rank C_close_broken = 3"
| "c_rank C_close_done = 2"
| "c_rank C_done = 1"
| "c_rank C_exit = 0"

definition potential :: "config \<Rightarrow> line \<Rightarrow> int" where
  "potential cfg s =
     m_rank (main_pc s) + pl_rank cfg (production_pc s) + cl_rank cfg (consumption_pc s) +
     psum p_rank s + csum c_rank s +
     6 * int (length (buf (jobChannel s))) + 3 * int (length (buf (widgetChannel s))) +
     flag (crashed s = None)"


text \<open>What a run under a schedule ends with, for a look at concrete runs.\<close>

definition summary :: "line \<Rightarrow> main_point \<times> fault option \<times> nat \<times> nat \<times> nat \<times> nat" where
  "summary s = (main_pc s, crashed s, produced s, consumed s, broken_reports s, raised s)"

definition run_summary ::
  "config \<Rightarrow> goroutine list \<Rightarrow> (main_point \<times> fault option \<times> nat \<times> nat \<times> nat \<times> nat) option" where
  "run_summary cfg sched = map_option summary (run cfg sched)"

definition run_stuck :: "config \<Rightarrow> goroutine list \<Rightarrow> bool" where
  "run_stuck cfg sched = (case run cfg sched of None \<Rightarrow> False | Some s \<Rightarrow> stuck cfg s)"

subsection \<open>Sample configurations and schedules\<close>

text \<open>One producer and one consumer make and consume one widget; no slot is broken.\<close>

definition cfg_plain :: config where
  "cfg_plain =
     \<lparr>numWidgets = 1, numProducers = 1, numConsumers = 1, numKth = - 1,
      rand = rand0, memory = 4096\<rparr>"

definition sched_plain :: "goroutine list" where
  "sched_plain =
     [Main, Main, Main,
      ProductionLine, ProductionLine, ProductionLine,
      ConsumptionLine, ConsumptionLine, ConsumptionLine,
      ProducerN 0, ProducerN 0, ProducerN 0, ProducerN 0, ProducerN 0,
      ProductionLine, ProductionLine, ProductionLine,
      ConsumerN 0, ConsumerN 0, ConsumerN 0, ConsumerN 0, ConsumerN 0,
      ConsumptionLine, ConsumptionLine, Main]"



text \<open>
  Two producers, slot 2 broken. Producer 0 takes slot 1 and is not scheduled again until
  the quit channel is closed; producer 1 takes slot 2, makes the broken widget and
  pushes it; the consumer finds it and the main goroutine closes the quit channel. Then
  producer 0 returns at its \<open>select\<close> without making the widget of slot 1.
\<close>

definition cfg_race :: config where
  "cfg_race =
     \<lparr>numWidgets = 2, numProducers = 2, numConsumers = 1, numKth = 2,
      rand = rand0, memory = 4096\<rparr>"

definition sched_race :: "goroutine list" where
  "sched_race =
     [Main, Main, Main,
      ProductionLine, ProductionLine, ProductionLine, ProductionLine,
      ConsumptionLine, ConsumptionLine, ConsumptionLine,
      ProducerN 0,
      ProducerN 1, ProducerN 1, ProducerN 1,
      ConsumerN 0, ConsumerN 0, ConsumerN 0, ConsumerN 0,
      Main, Main, Main,
      ProducerN 0, ProducerN 0,
      ProducerN 1, ProducerN 1,
      ProductionLine, ProductionLine, ProductionLine,
      ConsumerN 0, ConsumerN 0,
      ConsumptionLine, ConsumptionLine, Main]"

text \<open>The defect index is beyond the last slot: all widgets are made and consumed.\<close>

definition cfg_beyond :: config where
  "cfg_beyond =
     \<lparr>numWidgets = 1, numProducers = 1, numConsumers = 1, numKth = 2,
      rand = rand0, memory = 4096\<rparr>"

definition sched_beyond :: "goroutine list" where
  "sched_beyond =
     [Main, Main, Main,
      ProductionLine, ProductionLine, ProductionLine,
      ConsumptionLine, ConsumptionLine, ConsumptionLine,
      ProducerN 0, ProducerN 0, ProducerN 0, ProducerN 0, ProducerN 0,
      ProductionLine, ProductionLine, ProductionLine,
      ConsumerN 0, ConsumerN 0, ConsumerN 0, ConsumerN 0, ConsumerN 0,
      ConsumptionLine, ConsumptionLine]"

text \<open>No widget to make, and a defect index.\<close>

definition cfg_empty :: config where
  "cfg_empty =
     \<lparr>numWidgets = 0, numProducers = 1, numConsumers = 1, numKth = 1,
      rand = rand0, memory = 4096\<rparr>"

definition sched_empty :: "goroutine list" where
  "sched_empty =
     [Main, Main, Main,
      ProductionLine, ProductionLine, ProductionLine,
      ConsumptionLine, ConsumptionLine, ConsumptionLine,
      ProducerN 0, ProducerN 0,
      ProductionLine, ProductionLine, ProductionLine,
      ConsumerN 0, ConsumerN 0,
      ConsumptionLine, ConsumptionLine]"

text \<open>A negative number of widgets.\<close>

definition cfg_negative :: config where
  "cfg_negative =
     \<lparr>numWidgets = - 1, numProducers = 1, numConsumers = 1, numKth = - 1,
      rand = rand0, memory = 4096\<rparr>"



text \<open>More widgets than a channel can hold: \<open>2^62\<close> of them, on a machine of any size.\<close>

definition cfg_huge :: "int \<Rightarrow> config" where
  "cfg_huge mem =
     \<lparr>numWidgets = 4611686018427387904, numProducers = 1, numConsumers = 1, numKth = - 1,
      rand = rand0, memory = mem\<rparr>"

text \<open>A machine with too little memory for the two channels of a thousand widgets.\<close>

definition cfg_small_machine :: config where
  "cfg_small_machine =
     \<lparr>numWidgets = 1000, numProducers = 1, numConsumers = 1, numKth = - 1,
      rand = rand0, memory = 4096\<rparr>"

subsection \<open>The counter production line\<close>


























text \<open>The slots pushed by a run of the job-slot line, each with the flag of its widget.\<close>

definition run_pushed :: "config \<Rightarrow> goroutine list \<Rightarrow> (int \<times> bool) list option" where
  "run_pushed cfg sched = map_option (\<lambda>s. map (\<lambda>x. (fst x, broken (snd x))) (pushed s)) (run cfg sched)"




subsection \<open>The flags of the counter line\<close>









text \<open>Of a list of flags, only the one at index \<open>k\<close>, counted from 0, is set.\<close>

definition only_kth :: "int \<Rightarrow> bool list \<Rightarrow> bool" where
  "only_kth k bs = list_all (\<lambda>j. bs ! j \<longrightarrow> int j = k) [0..<length bs]"







section \<open>The identifier generator\<close>

declare idMaker_loop.simps [simp del]

lemma length_ASCII: "length ASCII = 35" by (simp add: ASCII_def)

lemma upt_shift: "[pos..<pos + Suc m] = pos # [pos + 1..<pos + 1 + m]"
proof -
  have a: "[pos..<pos + Suc m] = pos # [Suc pos..<pos + Suc m]"
    by (rule upt_conv_Cons) simp
  have c: "[Suc pos..<pos + Suc m] = [pos + 1..<pos + 1 + m]"
    by (rule arg_cong2 [where f = upt]) simp_all
  show ?thesis by (simp only: a c)
qed

lemma idMaker_loop_draw:
  "i < 32 \<Longrightarrow> i \<noteq> 16 \<Longrightarrow>
   idMaker_loop rnd i buffer pos =
     idMaker_loop rnd (i + 1) (buffer @ [ASCII ! (rnd pos mod 35)]) (pos + 1)"
  by (subst idMaker_loop.simps) (simp add: ID_LENGTH_def Intn_def length_ASCII)

lemma idMaker_loop_tail:
  "i + m = 32 \<Longrightarrow> 16 < i \<Longrightarrow>
   idMaker_loop rnd i buffer pos =
     (buffer @ map (\<lambda>k. ASCII ! (rnd k mod 35)) [pos..<pos + m], pos + m)"
proof (induction m arbitrary: i buffer pos)
  case 0
  then show ?case by (subst idMaker_loop.simps) (simp add: ID_LENGTH_def)
next
  case (Suc m)
  have "idMaker_loop rnd (i + 1) (buffer @ [ASCII ! (rnd pos mod 35)]) (pos + 1) =
        ((buffer @ [ASCII ! (rnd pos mod 35)]) @
           map (\<lambda>k. ASCII ! (rnd k mod 35)) [pos + 1..<pos + 1 + m], pos + 1 + m)"
    by (rule Suc.IH) (use Suc.prems in simp_all)
  moreover have "i < 32" "i \<noteq> 16" using Suc.prems by simp_all
  ultimately show ?case
    unfolding upt_shift by (simp add: idMaker_loop_draw)
qed

lemma idMaker_loop_head:
  "i + m = 16 \<Longrightarrow>
   idMaker_loop rnd i buffer pos =
     (buffer @ map (\<lambda>k. ASCII ! (rnd k mod 35)) [pos..<pos + m] @ ''-'' @
      map (\<lambda>k. ASCII ! (rnd k mod 35)) [pos + m..<pos + m + 15], pos + m + 15)"
proof (induction m arbitrary: i buffer pos)
  case 0
  then have i: "i = 16" by simp
  have "idMaker_loop rnd 16 buffer pos = idMaker_loop rnd 17 (buffer @ ''-'') pos"
    by (subst idMaker_loop.simps) (simp add: ID_LENGTH_def)
  then show ?case
    using idMaker_loop_tail [of 17 15 rnd "buffer @ ''-''" pos] by (simp add: i)
next
  case (Suc m)
  have "idMaker_loop rnd (i + 1) (buffer @ [ASCII ! (rnd pos mod 35)]) (pos + 1) =
        ((buffer @ [ASCII ! (rnd pos mod 35)]) @
           map (\<lambda>k. ASCII ! (rnd k mod 35)) [pos + 1..<pos + 1 + m] @ ''-'' @
           map (\<lambda>k. ASCII ! (rnd k mod 35)) [pos + 1 + m..<pos + 1 + m + 15], pos + 1 + m + 15)"
    by (rule Suc.IH) (use Suc.prems in simp_all)
  moreover have "i < 32" "i \<noteq> 16" using Suc.prems by simp_all
  ultimately show ?case
    unfolding upt_shift by (simp add: idMaker_loop_draw)
qed

lemma idMaker_closed:
  "idMaker rnd pos =
     (map (\<lambda>k. ASCII ! (rnd k mod 35)) [pos..<pos + 16] @ ''-'' @
      map (\<lambda>k. ASCII ! (rnd k mod 35)) [pos + 16..<pos + 31], pos + 31)"
  using idMaker_loop_head [of 0 16 rnd "[]" pos] by (simp add: idMaker_def add.commute)

lemma ASCII_lower_or_digit: "c \<in> set ASCII \<Longrightarrow> lower_or_digit c"
  by (auto simp: ASCII_def lower_or_digit_def)

lemma ASCII_nth_mem: "ASCII ! (r mod 35) \<in> set ASCII"
  by (rule nth_mem) (simp add: length_ASCII)

text \<open>
  C8 (as amended). Every call of \<open>idMaker\<close> returns a token of the fixed length 32
  (\<open>ID_LENGTH\<close>, separator included): 16 characters of \<open>ASCII\<close>, the separator \<open>-\<close> at
  index 16, then 15 characters of \<open>ASCII\<close>. Every character of \<open>ASCII\<close> is a lowercase
  letter or a digit, none is the separator, and the letter \<open>w\<close> is not among them.
\<close>

theorem idMaker_shape:
  "length (fst (idMaker rnd pos)) = 32 \<and>
   fst (idMaker rnd pos) ! 16 = CHR ''-'' \<and>
   length (take 16 (fst (idMaker rnd pos))) = 16 \<and>
   length (drop 17 (fst (idMaker rnd pos))) = 15 \<and>
   (\<forall>c \<in> set (take 16 (fst (idMaker rnd pos))) \<union> set (drop 17 (fst (idMaker rnd pos))).
      c \<in> set ASCII \<and> lower_or_digit c \<and> c \<noteq> CHR ''-'' \<and> c \<noteq> CHR ''w'')"
proof -
  let ?g = "\<lambda>k. ASCII ! (rnd k mod 35)"
  let ?a = "map ?g [pos..<pos + 16]" and ?b = "map ?g [pos + 16..<pos + 31]"
  have s: "fst (idMaker rnd pos) = ?a @ ''-'' @ ?b" by (simp add: idMaker_closed)
  have la: "length ?a = 16" and lb: "length ?b = 15" by simp_all
  have t: "take 16 (fst (idMaker rnd pos)) = ?a" unfolding s using la by simp
  have d: "drop 17 (fst (idMaker rnd pos)) = ?b" unfolding s using la by simp
  have n: "fst (idMaker rnd pos) ! 16 = CHR ''-''" unfolding s using la by (simp add: nth_append)
  have m: "\<And>c. c \<in> set ?a \<union> set ?b \<Longrightarrow> c \<in> set ASCII" using ASCII_nth_mem by auto
  have w: "\<And>c. c \<in> set ASCII \<Longrightarrow> c \<noteq> CHR ''-'' \<and> c \<noteq> CHR ''w''" by (auto simp: ASCII_def)
  show ?thesis unfolding t d using s la lb n m w ASCII_lower_or_digit by auto
qed

theorem idMaker_shape_witness:
  "length (fst (idMaker rand0 0)) = 32 \<and>
   fst (idMaker rand0 0) ! 16 = CHR ''-'' \<and>
   list_all (\<lambda>c. c \<in> set ASCII \<and> lower_or_digit c \<and> c \<noteq> CHR ''-'' \<and> c \<noteq> CHR ''w'')
     (take 16 (fst (idMaker rand0 0)) @ drop 17 (fst (idMaker rand0 0)))"
  using idMaker_shape [of rand0 0] by (simp add: list_all_iff)

text \<open>
  The token of C8 as the spec words it (16 characters, the separator, 16 characters) is
  not what \<open>idMaker\<close> returns: on the sample source the token has 32 characters, and 15
  of them follow the separator.
\<close>

theorem idMaker_not_16_16:
  "fst (idMaker rand0 0) = ''hu8lzcp3gt7kybo2-fs6jxan1er5iv9m'' \<and>
   length (fst (idMaker rand0 0)) = 32 \<and>
   length (drop 17 (fst (idMaker rand0 0))) \<noteq> 16"
  by code_simp

lemma sum_list_map_update:
  fixes g :: "'a \<Rightarrow> int"
  shows "j < length xs \<Longrightarrow> sum_list (map g (xs[j := y])) = sum_list (map g xs) + g y - g (xs ! j)"
  by (induction xs arbitrary: j) (auto split: nat.splits)

lemma sum_list_map_nth_le:
  fixes g :: "'a \<Rightarrow> int"
  shows "j < length xs \<Longrightarrow> (\<And>x. 0 \<le> g x) \<Longrightarrow> g (xs ! j) \<le> sum_list (map g xs)"
  by (rule member_le_sum_list) auto

lemma p_alive_nonneg: "0 \<le> p_alive x" by (cases x) auto
lemma c_alive_nonneg: "0 \<le> c_alive x" by (cases x) auto

lemma pl_closed_waited [simp]: "pl_closed pc \<Longrightarrow> pl_waited pc" by (cases pc) auto

lemma pl_waited_started [simp]:
  "pl_waited pc \<Longrightarrow> pl_started cfg pc = length (producerTable cfg)"
  "pl_waited pc \<Longrightarrow> pl_added cfg pc = int (length (producerTable cfg))"
  by (cases pc; simp)+

lemma cl_waited_started [simp]:
  "cl_waited pc \<Longrightarrow> cl_started cfg pc = length (consumerTable cfg)"
  "cl_waited pc \<Longrightarrow> cl_added cfg pc = int (length (consumerTable cfg))"
  by (cases pc; simp)+

lemma pl_started_added: "j < pl_started cfg pc \<Longrightarrow> pl_added cfg pc = int (length (producerTable cfg))"
  by (cases pc) auto

lemma cl_started_added: "j < cl_started cfg pc \<Longrightarrow> cl_added cfg pc = int (length (consumerTable cfg))"
  by (cases pc) auto

subsection \<open>The structure is kept by every step\<close>

lemma structure_main:
  assumes "structure_inv cfg s" "WidgetProductionConsumptionLine_step cfg s = Some s'"
    "main_pc s \<noteq> M_return" "crashed s' = None"
  shows "structure_inv cfg s'"
  using assms
  by (cases "main_pc s")
     (clarsimp simp: structure_inv_def WidgetProductionConsumptionLine_step_def crash_def signal_close_def
        psum_def csum_def flag_def
      split: if_splits)+

lemma structure_production:
  assumes "structure_inv cfg s" "productionLine_step cfg s = Some s'"
    "main_pc s \<noteq> M_return" "crashed s' = None"
  shows "structure_inv cfg s'"
  using assms
  by (cases "production_pc s")
     (clarsimp simp: structure_inv_def productionLine_step_def crash_def chan_close_def wg_Done_def
        psum_def csum_def flag_def
      split: if_splits)+

lemma structure_consumption:
  assumes "structure_inv cfg s" "consumptionLine_step cfg s = Some s'"
    "main_pc s \<noteq> M_return" "crashed s' = None"
  shows "structure_inv cfg s'"
  using assms
  by (cases "consumption_pc s")
     (clarsimp simp: structure_inv_def consumptionLine_step_def crash_def wg_Done_def psum_def csum_def flag_def
      split: if_splits)+

lemma structure_producer:
  assumes "structure_inv cfg s" "producer_step cfg j s = Some s'" "crashed s' = None"
  shows "structure_inv cfg s'"
proof -
  from assms(2) have j: "j < length (producers s)" by (simp add: producer_step_def split: if_splits)
  obtain wp pt where pt: "producers s ! j = (wp, pt)" by (cases "producers s ! j")
  have le: "p_alive pt \<le> psum p_alive s"
    using sum_list_map_nth_le [of j "producers s" "\<lambda>x. p_alive (snd x)"] j pt
    by (simp add: psum_def p_alive_nonneg)
  have ad: "pl_added cfg (production_pc s) = int (length (producerTable cfg))"
    using pl_started_added [of j cfg "production_pc s"] j assms(1) by (simp add: structure_inv_def)
  show ?thesis
    using assms j pt le ad
    by (cases pt)
       (clarsimp simp: structure_inv_def producer_step_def crash_def chan_send_def chan_recv_def wg_Done_def
          psum_def csum_def sum_list_map_update produce_def
        split: if_splits list.splits prod.splits)+
qed

lemma structure_consumer:
  assumes "structure_inv cfg s" "consumer_step cfg j s = Some s'" "crashed s' = None"
  shows "structure_inv cfg s'"
proof -
  from assms(2) have j: "j < length (consumers s)" by (simp add: consumer_step_def split: if_splits)
  obtain wc pt where pt: "consumers s ! j = (wc, pt)" by (cases "consumers s ! j")
  have le: "c_alive pt \<le> csum c_alive s"
    using sum_list_map_nth_le [of j "consumers s" "\<lambda>x. c_alive (snd x)"] j pt
    by (simp add: csum_def c_alive_nonneg)
  have ad: "cl_added cfg (consumption_pc s) = int (length (consumerTable cfg))"
    using cl_started_added [of j cfg "consumption_pc s"] j assms(1) by (simp add: structure_inv_def)
  show ?thesis
    using assms j pt le ad
    by (cases pt)
       (clarsimp simp: structure_inv_def consumer_step_def crash_def chan_recv_def wg_Done_def signal_close_def
          psum_def csum_def sum_list_map_update consume_def
        split: if_splits list.splits prod.splits)+
qed

subsection \<open>Counting\<close>

lemma count_simps [simp]:
  "count Q [] = 0"
  "count Q (x # xs) = (if Q x then 1 else 0) + count Q xs"
  "count Q (xs @ ys) = count Q xs + count Q ys"
  by (simp_all add: count_def)

lemma count_nonneg: "0 \<le> count Q xs"
  by (induction xs) auto


lemma count_True: "count (\<lambda>x. True) xs = int (length xs)"
  by (induction xs) auto

lemma count_False: "(\<And>x. x \<in> set xs \<Longrightarrow> \<not> Q x) \<Longrightarrow> count Q xs = 0"
  by (induction xs) auto


lemma upto_Cons: "[lo..n] = i # rest \<Longrightarrow> i = lo \<and> rest = [lo + 1..n] \<and> lo \<le> n"
  by (cases "lo \<le> n") (auto simp: upto_rec1)

lemma count_eq_upto: "count (\<lambda>i. i = k) [lo..n] = (if lo \<le> k \<and> k \<le> n then 1 else 0)"
proof (induction "nat (n + 1 - lo)" arbitrary: lo)
  case 0
  then show ?case by simp
next
  case (Suc m)
  then have lo: "lo \<le> n" and m: "m = nat (n + 1 - (lo + 1))" by linarith+
  then have "[lo..n] = lo # [lo + 1..n]" by (simp add: upto_rec1)
  then show ?case using Suc.hyps(1) [OF m] lo by auto
qed

lemma count_less_upto: "k < lo \<Longrightarrow> count (\<lambda>i. i < k) [lo..n] = 0"
  by (rule count_False) auto



lemma list_all_updateI: "list_all P xs \<Longrightarrow> P y \<Longrightarrow> list_all P (xs[j := y])"
  by (induction xs arbitrary: j) (auto split: nat.splits)

lemma list_all_nthD: "list_all P xs \<Longrightarrow> j < length xs \<Longrightarrow> P (xs ! j)"
  by (simp add: list_all_length)

lemma p_slot_nonneg: "0 \<le> p_slot Q x" by (cases x) auto
lemma p_slot_le_holding: "p_slot Q x \<le> p_holding x" by (cases x) auto
lemma p_holding_nonneg: "0 \<le> p_holding x" by (cases x) auto
lemma p_finished_nonneg: "0 \<le> p_finished x" by (cases x) auto
lemma c_token_nonneg: "0 \<le> c_token x" by (cases x) auto
lemma c_holding_nonneg: "0 \<le> c_holding x" by (cases x) auto
lemma c_finished_nonneg: "0 \<le> c_finished x" by (cases x) auto
lemma c_closing_done_nonneg: "0 \<le> c_closing_done x" by (cases x) auto
lemma c_closing_broken_nonneg: "0 \<le> c_closing_broken x" by (cases x) auto

lemmas point_nonneg = p_alive_nonneg c_alive_nonneg p_slot_nonneg p_holding_nonneg
  p_finished_nonneg c_token_nonneg c_holding_nonneg c_finished_nonneg c_closing_done_nonneg
  c_closing_broken_nonneg

lemma psum_nonneg: "(\<And>x. 0 \<le> f x) \<Longrightarrow> 0 \<le> psum f s"
  unfolding psum_def by (rule sum_list_nonneg) auto

lemma csum_nonneg: "(\<And>x. 0 \<le> f x) \<Longrightarrow> 0 \<le> csum f s"
  unfolding csum_def by (rule sum_list_nonneg) auto

lemma psum_nth_le:
  "j < length (producers s) \<Longrightarrow> producers s ! j = (wp, pt) \<Longrightarrow> (\<And>x. 0 \<le> f x) \<Longrightarrow> f pt \<le> psum f s"
  using sum_list_map_nth_le [of j "producers s" "\<lambda>x. f (snd x)"] by (simp add: psum_def)

lemma csum_nth_le:
  "j < length (consumers s) \<Longrightarrow> consumers s ! j = (wc, pt) \<Longrightarrow> (\<And>x. 0 \<le> f x) \<Longrightarrow> f pt \<le> csum f s"
  using sum_list_map_nth_le [of j "consumers s" "\<lambda>x. f (snd x)"] by (simp add: csum_def)

subsection \<open>The job channel and the slots are kept by every step\<close>

lemma jobs_main:
  assumes "jobs_inv cfg s" "WidgetProductionConsumptionLine_step cfg s = Some s'"
  shows "jobs_inv cfg s'"
  using assms
  by (cases "main_pc s")
     (clarsimp simp: jobs_inv_def next_job_def WidgetProductionConsumptionLine_step_def crash_def signal_close_def
      split: if_splits)+

lemma jobs_production:
  assumes "jobs_inv cfg s" "productionLine_step cfg s = Some s'"
  shows "jobs_inv cfg s'"
  using assms
  by (cases "production_pc s")
     (clarsimp simp: jobs_inv_def next_job_def productionLine_step_def crash_def chan_close_def wg_Done_def
      split: if_splits)+

lemma jobs_consumption:
  assumes "jobs_inv cfg s" "consumptionLine_step cfg s = Some s'"
  shows "jobs_inv cfg s'"
  using assms
  by (cases "consumption_pc s")
     (clarsimp simp: jobs_inv_def next_job_def consumptionLine_step_def crash_def wg_Done_def
      split: if_splits)+

lemma jobs_consumer:
  assumes "jobs_inv cfg s" "consumer_step cfg j s = Some s'"
  shows "jobs_inv cfg s'"
proof -
  obtain wc pt where pt: "consumers s ! j = (wc, pt)" by (cases "consumers s ! j")
  show ?thesis
    using assms pt
    by (cases pt)
       (clarsimp simp: jobs_inv_def next_job_def consumer_step_def crash_def chan_recv_def wg_Done_def
          signal_close_def consume_def
        split: if_splits list.splits prod.splits)+
qed

lemma jobs_producer:
  assumes "jobs_inv cfg s" "producer_step cfg j s = Some s'"
  shows "jobs_inv cfg s'"
proof -
  from assms(2) have j: "j < length (producers s)" by (simp add: producer_step_def split: if_splits)
  obtain wp pt where pt: "producers s ! j = (wp, pt)" by (cases "producers s ! j")
  have ok: "p_ok cfg pt"
    using list_all_nthD [of "\<lambda>x. p_ok cfg (snd x)" "producers s" j] assms(1) j pt
    by (simp add: jobs_inv_def)
  show ?thesis
  proof (cases pt)
    case P_range
    show ?thesis
    proof (cases "buf (jobChannel s)")
      case Nil
      then show ?thesis
        using assms j pt P_range
        by (clarsimp simp: jobs_inv_def next_job_def producer_step_def chan_recv_def
            intro!: list_all_updateI split: if_splits)
    next
      case (Cons i rest)
      then have u: "i = next_job cfg s \<and> rest = [next_job cfg s + 1..numWidgets cfg] \<and>
          next_job cfg s \<le> numWidgets cfg"
        using assms(1) upto_Cons [of "next_job cfg s" "numWidgets cfg" i rest]
        by (simp add: jobs_inv_def)
      have s': "s' = s\<lparr>jobChannel := (jobChannel s)\<lparr>buf := rest\<rparr>,
                       producers := (producers s)[j := (wp, P_select i)]\<rparr>"
        using assms(2) j pt P_range Cons by (simp add: producer_step_def chan_recv_def)
      have nj: "next_job cfg s' = next_job cfg s + 1"
        using Cons by (simp add: s' next_job_def)
      show ?thesis
        using assms(1) u nj
        by (simp add: jobs_inv_def) (simp add: s' list_all_updateI)
    qed
  next
    case (P_select i)
    then show ?thesis
      using assms j pt ok
      by (clarsimp simp: jobs_inv_def next_job_def producer_step_def produce_def
          intro!: list_all_updateI split: if_splits prod.splits)
  next
    case (P_send i w)
    then show ?thesis
      using assms j pt ok
      by (clarsimp simp: jobs_inv_def next_job_def producer_step_def chan_send_def crash_def
          list_all_updateI split: if_splits)
  next
    case P_done
    then show ?thesis
      using assms j pt
      by (clarsimp simp: jobs_inv_def next_job_def producer_step_def wg_Done_def crash_def
          intro!: list_all_updateI split: if_splits)
  next
    case P_exit
    then show ?thesis using assms j pt by (simp add: producer_step_def)
  qed
qed

lemma slot_main:
  assumes "slot_inv cfg Q s" "WidgetProductionConsumptionLine_step cfg s = Some s'"
  shows "slot_inv cfg Q s'"
  using assms
  by (cases "main_pc s")
     (clarsimp simp: slot_inv_def slots_def psum_def WidgetProductionConsumptionLine_step_def crash_def
        signal_close_def
      split: if_splits)+

lemma slot_production:
  assumes "slot_inv cfg Q s" "productionLine_step cfg s = Some s'"
  shows "slot_inv cfg Q s'"
  using assms
  by (cases "production_pc s")
     (clarsimp simp: slot_inv_def slots_def psum_def productionLine_step_def crash_def chan_close_def wg_Done_def
      split: if_splits)+

lemma slot_consumption:
  assumes "slot_inv cfg Q s" "consumptionLine_step cfg s = Some s'"
  shows "slot_inv cfg Q s'"
  using assms
  by (cases "consumption_pc s")
     (clarsimp simp: slot_inv_def slots_def psum_def consumptionLine_step_def crash_def wg_Done_def
      split: if_splits)+

lemma slot_consumer:
  assumes "slot_inv cfg Q s" "consumer_step cfg j s = Some s'"
  shows "slot_inv cfg Q s'"
proof -
  obtain wc pt where pt: "consumers s ! j = (wc, pt)" by (cases "consumers s ! j")
  show ?thesis
    using assms pt
    by (cases pt)
       (clarsimp simp: slot_inv_def slots_def psum_def consumer_step_def crash_def chan_recv_def wg_Done_def
          signal_close_def consume_def
        split: if_splits list.splits prod.splits)+
qed

lemma slot_producer:
  assumes "slot_inv cfg Q s" "producer_step cfg j s = Some s'"
  shows "slot_inv cfg Q s'"
proof -
  from assms(2) have j: "j < length (producers s)" by (simp add: producer_step_def split: if_splits)
  obtain wp pt where pt: "producers s ! j = (wp, pt)" by (cases "producers s ! j")
  show ?thesis
    using assms j pt
    by (cases pt)
       (clarsimp simp: slot_inv_def slots_def psum_def producer_step_def crash_def chan_send_def chan_recv_def
          wg_Done_def sum_list_map_update produce_def
        split: if_splits list.splits prod.splits)+
qed

subsection \<open>The broken widget and the widgets are kept by every step\<close>

lemma pushed_kth_le_1:
  assumes "slot_inv cfg (\<lambda>i. i = numKth cfg) s"
  shows "count (\<lambda>x. fst x = numKth cfg) (pushed s) + psum (p_slot (\<lambda>i. i = numKth cfg)) s \<le> 1"
proof -
  have "count (\<lambda>i. i = numKth cfg) [1..numWidgets cfg] \<le> 1"
    by (simp add: count_eq_upto)
  moreover have "0 \<le> count (\<lambda>i. i = numKth cfg) (buf (jobChannel s))"
    by (rule count_nonneg)
  ultimately show ?thesis
    using assms by (simp add: slot_inv_def slots_def)
qed

lemma token_main:
  assumes "token_inv cfg s" "WidgetProductionConsumptionLine_step cfg s = Some s'"
  shows "token_inv cfg s'"
  using assms
  by (cases "main_pc s")
     (clarsimp simp: token_inv_def csum_def broken_reports_def WidgetProductionConsumptionLine_step_def
        crash_def signal_close_def
      split: if_splits)+

lemma token_production:
  assumes "token_inv cfg s" "productionLine_step cfg s = Some s'"
  shows "token_inv cfg s'"
  using assms
  by (cases "production_pc s")
     (clarsimp simp: token_inv_def csum_def broken_reports_def productionLine_step_def crash_def
        chan_close_def wg_Done_def
      split: if_splits)+

lemma token_consumption:
  assumes "token_inv cfg s" "consumptionLine_step cfg s = Some s'"
  shows "token_inv cfg s'"
  using assms
  by (cases "consumption_pc s")
     (clarsimp simp: token_inv_def csum_def broken_reports_def consumptionLine_step_def crash_def wg_Done_def
      split: if_splits)+

lemma token_producer:
  assumes "token_inv cfg s" "jobs_inv cfg s" "producer_step cfg j s = Some s'"
  shows "token_inv cfg s'"
proof -
  from assms(3) have j: "j < length (producers s)" by (simp add: producer_step_def split: if_splits)
  obtain wp pt where pt: "producers s ! j = (wp, pt)" by (cases "producers s ! j")
  have ok: "p_ok cfg pt"
    using list_all_nthD [of "\<lambda>x. p_ok cfg (snd x)" "producers s" j] assms(2) j pt
    by (simp add: jobs_inv_def)
  show ?thesis
    using assms(1,3) j pt ok
    by (cases pt)
       (clarsimp simp: token_inv_def csum_def broken_reports_def producer_step_def crash_def chan_send_def
          chan_recv_def wg_Done_def produce_def
        split: if_splits list.splits prod.splits)+
qed

lemma token_consumer:
  assumes "token_inv cfg s" "slot_inv cfg (\<lambda>i. i = numKth cfg) s"
    "consumer_step cfg j s = Some s'" "crashed s' = None"
  shows "token_inv cfg s'"
proof -
  from assms(3) have j: "j < length (consumers s)" by (simp add: consumer_step_def split: if_splits)
  obtain wc pt where pt: "consumers s ! j = (wc, pt)" by (cases "consumers s ! j")
  have k1: "count (\<lambda>x. fst x = numKth cfg) (pushed s) \<le> 1"
    using pushed_kth_le_1 [OF assms(2)] psum_nonneg [of "p_slot (\<lambda>i. i = numKth cfg)" s]
    by (simp add: p_slot_nonneg)
  have le: "c_token pt \<le> csum c_token s" "c_closing_done pt \<le> csum c_closing_done s"
    "c_closing_broken pt \<le> csum c_closing_broken s"
    using csum_nth_le [OF j pt] by (simp_all add: point_nonneg)
  have nn: "0 \<le> count broken (buf (widgetChannel s))" "0 \<le> csum c_closing_done s"
    by (simp_all add: count_nonneg csum_nonneg point_nonneg)
  show ?thesis
    using assms(1,3,4) j pt k1 le nn
    by (cases pt)
       (clarsimp simp: token_inv_def csum_def broken_reports_def consumer_step_def crash_def chan_recv_def
          wg_Done_def signal_close_def consume_def sum_list_map_update flag_def
        split: if_splits list.splits prod.splits)+
qed

lemma widget_main:
  assumes "widget_inv cfg s" "WidgetProductionConsumptionLine_step cfg s = Some s'"
  shows "widget_inv cfg s'"
  using assms
  by (cases "main_pc s")
     (clarsimp simp: widget_inv_def csum_def psum_def consumed_def WidgetProductionConsumptionLine_step_def
        crash_def signal_close_def
      split: if_splits)+

lemma widget_production:
  assumes "widget_inv cfg s" "productionLine_step cfg s = Some s'"
  shows "widget_inv cfg s'"
  using assms
  by (cases "production_pc s")
     (clarsimp simp: widget_inv_def csum_def psum_def consumed_def productionLine_step_def crash_def
        chan_close_def wg_Done_def
      split: if_splits)+

lemma widget_consumption:
  assumes "widget_inv cfg s" "consumptionLine_step cfg s = Some s'"
  shows "widget_inv cfg s'"
  using assms
  by (cases "consumption_pc s")
     (clarsimp simp: widget_inv_def csum_def psum_def consumed_def consumptionLine_step_def crash_def
        wg_Done_def
      split: if_splits)+

lemma widget_producer:
  assumes "widget_inv cfg s" "producer_step cfg j s = Some s'" "crashed s' = None"
  shows "widget_inv cfg s'"
proof -
  from assms(2) have j: "j < length (producers s)" by (simp add: producer_step_def split: if_splits)
  obtain wp pt where pt: "producers s ! j = (wp, pt)" by (cases "producers s ! j")
  have le: "p_finished pt \<le> psum p_finished s"
    using psum_nth_le [OF j pt] by (simp add: point_nonneg)
  show ?thesis
    using assms j pt le
    by (cases pt)
       (clarsimp simp: widget_inv_def csum_def psum_def consumed_def producer_step_def crash_def chan_send_def
          chan_recv_def wg_Done_def produce_def sum_list_map_update
        split: if_splits list.splits prod.splits)+
qed

lemma widget_consumer:
  assumes "widget_inv cfg s" "consumer_step cfg j s = Some s'" "crashed s' = None"
  shows "widget_inv cfg s'"
proof -
  from assms(2) have j: "j < length (consumers s)" by (simp add: consumer_step_def split: if_splits)
  obtain wc pt where pt: "consumers s ! j = (wc, pt)" by (cases "consumers s ! j")
  have le: "c_finished pt \<le> csum c_finished s" "c_holding pt \<le> csum c_holding s"
    using csum_nth_le [OF j pt] by (simp_all add: point_nonneg)
  show ?thesis
    using assms j pt le
    by (cases pt)
       (clarsimp simp: widget_inv_def csum_def psum_def consumed_def consumer_step_def crash_def chan_recv_def
          wg_Done_def signal_close_def consume_def sum_list_map_update
        split: if_splits list.splits prod.splits; (cases "doneChannel s"; simp)?)+
qed

subsection \<open>The slots below the broken one\<close>

lemma sum_list_le_length:
  fixes g :: "'a \<Rightarrow> int"
  shows "(\<And>x. g x \<le> 1) \<Longrightarrow> sum_list (map g xs) \<le> int (length xs)"
proof (induction xs)
  case Nil
  show ?case by simp
next
  case (Cons x xs)
  have "g x \<le> 1" by (rule Cons.prems)
  moreover have "sum_list (map g xs) \<le> int (length xs)" by (rule Cons.IH) (rule Cons.prems)
  ultimately show ?case by simp
qed

lemma sum_list_le_length_less:
  fixes g :: "'a \<Rightarrow> int"
  assumes "\<And>x. g x \<le> 1"
  shows "j < length xs \<Longrightarrow> g (xs ! j) = 0 \<Longrightarrow> sum_list (map g xs) \<le> int (length xs) - 1"
proof (induction xs arbitrary: j)
  case Nil
  then show ?case by simp
next
  case (Cons x xs)
  show ?case
  proof (cases j)
    case 0
    then show ?thesis
      using Cons.prems sum_list_le_length [of g xs] assms by simp
  next
    case (Suc j')
    then show ?thesis
      using Cons.prems Cons.IH [of j'] assms [of x] by simp
  qed
qed

lemma p_slot_le_1: "p_slot Q x \<le> 1" by (cases x) auto

lemma psum_slot_less:
  assumes "j < length (producers s)" "producers s ! j = (wp, pt)" "p_slot Q pt = 0"
  shows "psum (p_slot Q) s \<le> int (length (producers s)) - 1"
  using assms sum_list_le_length_less [of "\<lambda>x. p_slot Q (snd x)" j "producers s"]
  by (simp add: psum_def p_slot_le_1)

lemma below_unchanged: "below_inv cfg s \<Longrightarrow> pushed s' = pushed s \<Longrightarrow> below_inv cfg s'"
  by (simp add: below_inv_def)

lemma pushed_main:
  "WidgetProductionConsumptionLine_step cfg s = Some s' \<Longrightarrow> pushed s' = pushed s"
  by (cases "main_pc s")
     (clarsimp simp: WidgetProductionConsumptionLine_step_def crash_def signal_close_def
      split: if_splits)+

lemma pushed_production: "productionLine_step cfg s = Some s' \<Longrightarrow> pushed s' = pushed s"
  by (cases "production_pc s")
     (clarsimp simp: productionLine_step_def crash_def chan_close_def wg_Done_def split: if_splits)+

lemma pushed_consumption: "consumptionLine_step cfg s = Some s' \<Longrightarrow> pushed s' = pushed s"
  by (cases "consumption_pc s")
     (clarsimp simp: consumptionLine_step_def crash_def wg_Done_def split: if_splits)+

lemma pushed_consumer: "consumer_step cfg j s = Some s' \<Longrightarrow> pushed s' = pushed s"
proof -
  obtain wc pt where pt: "consumers s ! j = (wc, pt)" by (cases "consumers s ! j")
  show "consumer_step cfg j s = Some s' \<Longrightarrow> pushed s' = pushed s"
    using pt
    by (cases pt)
       (clarsimp simp: consumer_step_def crash_def chan_recv_def wg_Done_def signal_close_def consume_def
        split: if_splits list.splits prod.splits)+
qed

lemma pushed_producer:
  assumes "producer_step cfg j s = Some s'" "crashed s' = None"
  shows "(pushed s' = pushed s) \<or>
         (\<exists>wp i w. j < length (producers s) \<and> producers s ! j = (wp, P_send i w) \<and>
            pushed s' = pushed s @ [(i, w)])"
proof -
  from assms(1) have j: "j < length (producers s)" by (simp add: producer_step_def split: if_splits)
  obtain wp pt where pt: "producers s ! j = (wp, pt)" by (cases "producers s ! j")
  show ?thesis
    using assms j pt
    by (cases pt)
       (clarsimp simp: producer_step_def crash_def chan_send_def chan_recv_def wg_Done_def produce_def
        split: if_splits list.splits prod.splits)+
qed

lemma below_producer:
  assumes inv: "structure_inv cfg s" "jobs_inv cfg s" "slot_inv cfg (\<lambda>i. i = numKth cfg) s"
      "slot_inv cfg (\<lambda>i. i < numKth cfg) s" "token_inv cfg s" "below_inv cfg s"
    and step: "producer_step cfg j s = Some s'" "crashed s' = None"
  shows "below_inv cfg s'"
  using pushed_producer [OF step]
proof (elim disjE exE conjE)
  assume "pushed s' = pushed s"
  then show ?thesis using inv(6) by (rule below_unchanged [rotated])
next
  fix wp i w
  assume j: "j < length (producers s)" and pt: "producers s ! j = (wp, P_send i w)"
    and pu: "pushed s' = pushed s @ [(i, w)]"
  let ?k = "numKth cfg" and ?n = "numWidgets cfg"
  show ?thesis
  proof (cases "i = ?k")
    case False
    then show ?thesis using inv(6) by (auto simp: below_inv_def pu)
  next
    case True
    have ok: "1 \<le> ?k \<and> ?k \<le> ?n"
      using list_all_nthD [of "\<lambda>x. p_ok cfg (snd x)" "producers s" j] inv(2) j pt True
      by (simp add: jobs_inv_def)
    have held: "1 \<le> psum (p_slot (\<lambda>i. i = ?k)) s"
      using psum_nth_le [OF j pt, of "p_slot (\<lambda>i. i = ?k)"] True by (simp add: p_slot_nonneg)
    have pk: "count (\<lambda>x. fst x = ?k) (pushed s) = 0"
      using pushed_kth_le_1 [OF inv(3)] held count_nonneg [of "\<lambda>x. fst x = ?k" "pushed s"] by simp
    have jk: "count (\<lambda>i. i = ?k) (buf (jobChannel s)) = 0"
      using inv(3) held pk count_nonneg [of "\<lambda>i. i = ?k" "buf (jobChannel s)"]
        count_eq_upto [of ?k 1 ?n]
      by (simp add: slot_inv_def slots_def split: if_splits)
    have "\<not> brokenWidgetChannel s"
      using inv(5) pk count_nonneg [of broken "buf (widgetChannel s)"] csum_nonneg [of c_token s]
      by (auto simp: token_inv_def flag_def c_token_nonneg split: if_splits)
    then have nq: "\<not> quitChannel s"
      using inv(1) by (auto simp: structure_inv_def)
    have lo: "?k < next_job cfg s"
      using jk inv(2) ok count_eq_upto [of ?k "next_job cfg s" ?n]
      by (simp add: jobs_inv_def split: if_splits)
    have jb: "count (\<lambda>i. i < ?k) (buf (jobChannel s)) = 0"
      using count_less_upto [OF lo, of ?n] inv(2) by (simp add: jobs_inv_def)
    have ps: "psum (p_slot (\<lambda>i. i < ?k)) s \<le> int (length (producerTable cfg)) - 1"
      using psum_slot_less [OF j pt, of "\<lambda>i. i < ?k"] True inv(1)
      by (simp add: structure_inv_def)
    have "count (\<lambda>i. i < ?k) [1..?n] = psum (p_slot (\<lambda>i. i < ?k)) s + count (\<lambda>x. fst x < ?k) (pushed s)"
      using inv(4) nq jb by (simp add: slot_inv_def slots_def)
    then show ?thesis
      using ps by (simp add: below_inv_def pu)
  qed
qed

subsection \<open>No step panics\<close>

lemma no_crash_main:
  assumes "structure_inv cfg s" "crashed s = None" "WidgetProductionConsumptionLine_step cfg s = Some s'"
  shows "crashed s' = None"
  using assms
  by (cases "main_pc s")
     (clarsimp simp: structure_inv_def WidgetProductionConsumptionLine_step_def crash_def signal_close_def
      split: if_splits)+

lemma no_crash_production:
  assumes "structure_inv cfg s" "crashed s = None" "productionLine_step cfg s = Some s'"
  shows "crashed s' = None"
  using assms
  by (cases "production_pc s")
     (clarsimp simp: structure_inv_def productionLine_step_def crash_def chan_close_def wg_Done_def flag_def
      split: if_splits)+

lemma no_crash_consumption:
  assumes "structure_inv cfg s" "crashed s = None" "consumptionLine_step cfg s = Some s'"
  shows "crashed s' = None"
  using assms
  by (cases "consumption_pc s")
     (clarsimp simp: structure_inv_def consumptionLine_step_def crash_def wg_Done_def flag_def
      split: if_splits)+

lemma no_crash_producer:
  assumes "structure_inv cfg s" "crashed s = None" "producer_step cfg j s = Some s'"
  shows "crashed s' = None"
proof -
  from assms(3) have j: "j < length (producers s)" by (simp add: producer_step_def split: if_splits)
  obtain wp pt where pt: "producers s ! j = (wp, pt)" by (cases "producers s ! j")
  have le: "p_alive pt \<le> psum p_alive s"
    using psum_nth_le [OF j pt] by (simp add: point_nonneg)
  have ad: "pl_added cfg (production_pc s) = int (length (producerTable cfg))"
    using pl_started_added [of j cfg "production_pc s"] j assms(1) by (simp add: structure_inv_def)
  show ?thesis
    using assms j pt le ad
    by (cases pt)
       (clarsimp simp: structure_inv_def producer_step_def crash_def chan_send_def chan_recv_def wg_Done_def
          produce_def
        split: if_splits list.splits prod.splits)+
qed

lemma no_crash_consumer:
  assumes "structure_inv cfg s" "token_inv cfg s" "slot_inv cfg (\<lambda>i. i = numKth cfg) s"
    "crashed s = None" "consumer_step cfg j s = Some s'"
  shows "crashed s' = None"
proof -
  from assms(5) have j: "j < length (consumers s)" by (simp add: consumer_step_def split: if_splits)
  obtain wc pt where pt: "consumers s ! j = (wc, pt)" by (cases "consumers s ! j")
  have k1: "count (\<lambda>x. fst x = numKth cfg) (pushed s) \<le> 1"
    using pushed_kth_le_1 [OF assms(3)] psum_nonneg [of "p_slot (\<lambda>i. i = numKth cfg)" s]
    by (simp add: p_slot_nonneg)
  have le: "c_alive pt \<le> csum c_alive s" "c_token pt \<le> csum c_token s"
    "c_closing_done pt \<le> csum c_closing_done s"
    using csum_nth_le [OF j pt] by (simp_all add: point_nonneg)
  have nn: "0 \<le> count broken (buf (widgetChannel s))"
    by (simp add: count_nonneg)
  have ad: "cl_added cfg (consumption_pc s) = int (length (consumerTable cfg))"
    using cl_started_added [of j cfg "consumption_pc s"] j assms(1) by (simp add: structure_inv_def)
  show ?thesis
    using assms j pt le ad k1 nn
    by (cases pt)
       (clarsimp simp: structure_inv_def token_inv_def consumer_step_def crash_def chan_recv_def wg_Done_def
          signal_close_def consume_def flag_def
        split: if_splits list.splits prod.splits)+
qed

subsection \<open>The invariant holds in every state of a run\<close>

lemma line_inv_step:
  assumes "line_inv cfg s" "step cfg g s = Some s'"
  shows "line_inv cfg s'"
proof -
  from assms(2) have live: "crashed s = None" "main_pc s \<noteq> M_return"
    by (simp_all add: step_def split: if_splits)
  note I = assms(1) [unfolded line_inv_def]
  show ?thesis
  proof (cases g)
    case Main
    then have st: "WidgetProductionConsumptionLine_step cfg s = Some s'"
      using assms(2) live by (simp add: step_def)
    have nc: "crashed s' = None" using no_crash_main [OF _ _ st] I by simp
    show ?thesis
      unfolding line_inv_def
      using I nc structure_main [OF _ st live(2) nc] jobs_main [OF _ st] slot_main [OF _ st]
        token_main [OF _ st] widget_main [OF _ st] below_unchanged [OF _ pushed_main [OF st]]
      by simp
  next
    case ProductionLine
    then have st: "productionLine_step cfg s = Some s'"
      using assms(2) live by (simp add: step_def)
    have nc: "crashed s' = None" using no_crash_production [OF _ _ st] I by simp
    show ?thesis
      unfolding line_inv_def
      using I nc structure_production [OF _ st live(2) nc] jobs_production [OF _ st]
        slot_production [OF _ st] token_production [OF _ st] widget_production [OF _ st]
        below_unchanged [OF _ pushed_production [OF st]]
      by simp
  next
    case ConsumptionLine
    then have st: "consumptionLine_step cfg s = Some s'"
      using assms(2) live by (simp add: step_def)
    have nc: "crashed s' = None" using no_crash_consumption [OF _ _ st] I by simp
    show ?thesis
      unfolding line_inv_def
      using I nc structure_consumption [OF _ st live(2) nc] jobs_consumption [OF _ st]
        slot_consumption [OF _ st] token_consumption [OF _ st] widget_consumption [OF _ st]
        below_unchanged [OF _ pushed_consumption [OF st]]
      by simp
  next
    case (ProducerN j)
    then have st: "producer_step cfg j s = Some s'"
      using assms(2) live by (simp add: step_def)
    have nc: "crashed s' = None" using no_crash_producer [OF _ _ st] I by simp
    show ?thesis
      unfolding line_inv_def
      using I nc structure_producer [OF _ st nc] jobs_producer [OF _ st] slot_producer [OF _ st]
        token_producer [OF _ _ st] widget_producer [OF _ st nc]
        below_producer [OF _ _ _ _ _ _ st nc]
      by simp
  next
    case (ConsumerN j)
    then have st: "consumer_step cfg j s = Some s'"
      using assms(2) live by (simp add: step_def)
    have nc: "crashed s' = None" using no_crash_consumer [OF _ _ _ _ st] I by simp
    show ?thesis
      unfolding line_inv_def
      using I nc structure_consumer [OF _ st nc] jobs_consumer [OF _ st] slot_consumer [OF _ st]
        token_consumer [OF _ _ st nc] widget_consumer [OF _ st nc]
        below_unchanged [OF _ pushed_consumer [OF st]]
      by simp
  qed
qed

lemma line_inv_exec: "line_inv cfg s \<Longrightarrow> exec cfg sched s = Some s' \<Longrightarrow> line_inv cfg s'"
proof (induction sched arbitrary: s)
  case Nil
  then show ?case by simp
next
  case (Cons g gs)
  then show ?case by (auto split: option.splits dest: line_inv_step)
qed

subsection \<open>The setup\<close>

declare rackUp.simps [simp del] makeProducers.simps [simp del] makeConsumers.simps [simp del]
  digits.simps [simp del]

lemma rackUp_fills:
  assumes "1 \<le> i" "i \<le> n + 1" "buf ch = [1..i - 1]" "cap ch = nat n" "\<not> closed ch"
  shows "rackUp i n ch = Inr (ch\<lparr>buf := [1..n]\<rparr>)"
  using assms
proof (induction i n ch rule: rackUp.induct)
  case (1 i n jobs)
  show ?case
  proof (cases "i \<le> n")
    case False
    then have "i - 1 = n" using "1.prems" by simp
    then have "jobs\<lparr>buf := [1..n]\<rparr> = jobs" using "1.prems" by (cases jobs) simp
    then show ?thesis
      using False by (subst rackUp.simps) simp
  next
    case True
    have up: "[1..i - 1] @ [i] = [1..i]"
      using "1.prems"(1) upto_rec2 [of 1 i] by simp
    have sent: "chan_send i jobs = Sent (jobs\<lparr>buf := [1..i]\<rparr>)"
      using True "1.prems" up by (simp add: chan_send_def)
    have "rackUp (i + 1) n (jobs\<lparr>buf := [1..i]\<rparr>) = Inr (jobs\<lparr>buf := [1..i], buf := [1..n]\<rparr>)"
      using "1.IH" [OF True sent] True "1.prems" by simp
    then show ?thesis
      using True sent by (subst rackUp.simps) simp
  qed
qed

lemma init_Inr:
  assumes "0 \<le> numWidgets cfg" "sizeof_Widget * numWidgets cfg \<le> maxAlloc - hchanSize"
    "2 * hchanSize + (sizeof_int + sizeof_Widget) * numWidgets cfg \<le> memory cfg"
  shows "WidgetProductionConsumptionLine_init cfg =
     Inr \<lparr>jobChannel = \<lparr>buf = [1..numWidgets cfg], cap = nat (numWidgets cfg), closed = True\<rparr>,
          widgetChannel = \<lparr>buf = [], cap = nat (numWidgets cfg), closed = False\<rparr>,
          quitChannel = False, brokenWidgetChannel = False, doneChannel = False, wg = 2,
          productionWaitGroup = 0, consumptionWaitGroup = 0,
          main_pc = M_go_production, production_pc = PL_idle, consumption_pc = CL_idle,
          producers = [], consumers = [], rpos = 0, clock = 0, stdout = [],
          pushed = [], raised = 0, crashed = None\<rparr>"
proof -
  have "rackUp 1 (numWidgets cfg) \<lparr>buf = [], cap = nat (numWidgets cfg), closed = False\<rparr> =
        Inr \<lparr>buf = [1..numWidgets cfg], cap = nat (numWidgets cfg), closed = False\<rparr>"
    using rackUp_fills [of 1 "numWidgets cfg" "\<lparr>buf = [], cap = nat (numWidgets cfg), closed = False\<rparr>"]
      assms(1) by simp
  moreover have "make_chan (memory cfg) sizeof_int (numWidgets cfg) =
        (Inr \<lparr>buf = [], cap = nat (numWidgets cfg), closed = False\<rparr> :: fault + int chan)"
    using assms by (simp add: make_chan_def sizeof_int_def sizeof_Widget_def hchanSize_def)
  moreover have "make_chan (memory cfg - (hchanSize + sizeof_int * numWidgets cfg)) sizeof_Widget
        (numWidgets cfg) =
        (Inr \<lparr>buf = [], cap = nat (numWidgets cfg), closed = False\<rparr> :: fault + Widget chan)"
    using assms by (simp add: make_chan_def sizeof_int_def sizeof_Widget_def hchanSize_def)
  ultimately show ?thesis
    by (simp add: WidgetProductionConsumptionLine_init_def chan_close_def)
qed

lemma init_Inl:
  assumes "numWidgets cfg < 0"
  shows "WidgetProductionConsumptionLine_init cfg = Inl MakechanSizeOutOfRange"
  using assms by (simp add: WidgetProductionConsumptionLine_init_def make_chan_def)

lemma init_out_of_range:
  assumes "maxAlloc - hchanSize < sizeof_Widget * numWidgets cfg"
  shows "WidgetProductionConsumptionLine_init cfg = Inl MakechanSizeOutOfRange \<or>
         WidgetProductionConsumptionLine_init cfg = Inl OutOfMemory"
  using assms
  by (simp add: WidgetProductionConsumptionLine_init_def make_chan_def split: sum.splits)

lemma init_out_of_memory:
  assumes "memory cfg < 2 * hchanSize + (sizeof_int + sizeof_Widget) * numWidgets cfg"
  shows "WidgetProductionConsumptionLine_init cfg = Inl MakechanSizeOutOfRange \<or>
         WidgetProductionConsumptionLine_init cfg = Inl OutOfMemory"
  using assms
  by (auto simp: WidgetProductionConsumptionLine_init_def make_chan_def algebra_simps
      split: sum.splits)

lemma widget_channel_limit:
  "(sizeof_Widget * n \<le> maxAlloc - hchanSize) = (n \<le> 4398046511102)"
  by (auto simp: sizeof_Widget_def maxAlloc_def hchanSize_def)

lemma init_fits:
  assumes "WidgetProductionConsumptionLine_init cfg = Inr s0"
  shows "0 \<le> numWidgets cfg" "sizeof_Widget * numWidgets cfg \<le> maxAlloc - hchanSize"
    "2 * hchanSize + (sizeof_int + sizeof_Widget) * numWidgets cfg \<le> memory cfg"
proof -
  show "0 \<le> numWidgets cfg"
    using init_Inl [of cfg] assms by (cases "numWidgets cfg < 0") auto
  show "sizeof_Widget * numWidgets cfg \<le> maxAlloc - hchanSize"
    using init_out_of_range [of cfg] assms
    by (cases "maxAlloc - hchanSize < sizeof_Widget * numWidgets cfg") auto
  show "2 * hchanSize + (sizeof_int + sizeof_Widget) * numWidgets cfg \<le> memory cfg"
    using init_out_of_memory [of cfg] assms
    by (cases "memory cfg < 2 * hchanSize + (sizeof_int + sizeof_Widget) * numWidgets cfg") auto
qed

lemma init_nonneg: "WidgetProductionConsumptionLine_init cfg = Inr s0 \<Longrightarrow> 0 \<le> numWidgets cfg"
  by (rule init_fits)

lemma init_state:
  assumes "WidgetProductionConsumptionLine_init cfg = Inr s0"
  shows "s0 =
     \<lparr>jobChannel = \<lparr>buf = [1..numWidgets cfg], cap = nat (numWidgets cfg), closed = True\<rparr>,
      widgetChannel = \<lparr>buf = [], cap = nat (numWidgets cfg), closed = False\<rparr>,
      quitChannel = False, brokenWidgetChannel = False, doneChannel = False, wg = 2,
      productionWaitGroup = 0, consumptionWaitGroup = 0,
      main_pc = M_go_production, production_pc = PL_idle, consumption_pc = CL_idle,
      producers = [], consumers = [], rpos = 0, clock = 0, stdout = [],
      pushed = [], raised = 0, crashed = None\<rparr>"
  using init_Inr [OF init_fits [OF assms]] assms by simp

lemma init_line_inv:
  assumes "WidgetProductionConsumptionLine_init cfg = Inr s0"
  shows "line_inv cfg s0"
proof -
  have n: "0 \<le> numWidgets cfg" using assms by (rule init_nonneg)
  note s0 = init_state [OF assms]
  have "structure_inv cfg s0"
    by (simp add: s0 structure_inv_def psum_def csum_def flag_def)
  moreover have "jobs_inv cfg s0"
    using n by (simp add: s0 jobs_inv_def next_job_def)
  moreover have "slot_inv cfg Q s0" for Q
    by (simp add: s0 slot_inv_def slots_def psum_def)
  moreover have "token_inv cfg s0"
    by (simp add: s0 token_inv_def csum_def flag_def broken_reports_def)
  moreover have "widget_inv cfg s0"
    by (simp add: s0 widget_inv_def csum_def psum_def consumed_def)
  moreover have "below_inv cfg s0"
    by (simp add: s0 below_inv_def)
  moreover have "crashed s0 = None"
    by (simp add: s0)
  ultimately show ?thesis by (simp add: line_inv_def)
qed

lemma reach_line_inv:
  assumes "WidgetProductionConsumptionLine_init cfg = Inr s0" "exec cfg sched s0 = Some s"
  shows "line_inv cfg s"
  using line_inv_exec [OF init_line_inv [OF assms(1)] assms(2)] .

lemma slot_inv_step:
  assumes "slot_inv cfg Q s" "step cfg g s = Some s'"
  shows "slot_inv cfg Q s'"
proof (cases g)
  case Main
  then show ?thesis using assms slot_main [of cfg Q s s'] by (simp add: step_def split: if_splits)
next
  case ProductionLine
  then show ?thesis using assms slot_production [of cfg Q s s'] by (simp add: step_def split: if_splits)
next
  case ConsumptionLine
  then show ?thesis using assms slot_consumption [of cfg Q s s'] by (simp add: step_def split: if_splits)
next
  case (ProducerN j)
  then show ?thesis using assms slot_producer [of cfg Q s j s'] by (simp add: step_def split: if_splits)
next
  case (ConsumerN j)
  then show ?thesis using assms slot_consumer [of cfg Q s j s'] by (simp add: step_def split: if_splits)
qed

lemma reach_slot_inv:
  assumes "WidgetProductionConsumptionLine_init cfg = Inr s0" "exec cfg sched s0 = Some s"
  shows "slot_inv cfg Q s"
proof -
  have "slot_inv cfg Q s0"
    by (subst init_state [OF assms(1)]) (simp add: slot_inv_def slots_def psum_def)
  moreover have "slot_inv cfg Q a \<Longrightarrow> exec cfg gs a = Some b \<Longrightarrow> slot_inv cfg Q b" for gs a b
  proof (induction gs arbitrary: a)
    case Nil
    then show ?case by simp
  next
    case (Cons g gs)
    then obtain c where c: "step cfg g a = Some c" "exec cfg gs c = Some b"
      by (auto split: option.splits)
    show ?case by (rule Cons.IH [OF slot_inv_step [OF Cons.prems(1) c(1)] c(2)])
  qed
  ultimately show ?thesis using assms(2) by blast
qed

lemma length_makeProducers: "length (makeProducers i n t) = length t + nat (n - i)"
proof (induction i n t rule: makeProducers.induct)
  case (1 i n t)
  show ?case by (subst makeProducers.simps) (use 1 in auto)
qed

lemma length_makeConsumers: "length (makeConsumers i n t) = length t + nat (n - i)"
proof (induction i n t rule: makeConsumers.induct)
  case (1 i n t)
  show ?case by (subst makeConsumers.simps) (use 1 in auto)
qed

lemma length_producerTable: "length (producerTable cfg) = nat (numProducers cfg)"
  by (simp add: producerTable_def length_makeProducers)

lemma length_consumerTable: "length (consumerTable cfg) = nat (numConsumers cfg)"
  by (simp add: consumerTable_def length_makeConsumers)

subsection \<open>Every step lowers the potential\<close>

lemma potential_main:
  assumes "WidgetProductionConsumptionLine_step cfg s = Some s'" "crashed s = None"
    "structure_inv cfg s"
  shows "potential cfg s' < potential cfg s"
  using assms
  by (cases "main_pc s")
     (clarsimp simp: potential_def psum_def csum_def flag_def structure_inv_def WidgetProductionConsumptionLine_step_def crash_def
        signal_close_def
      split: if_splits)+

lemma potential_production:
  assumes "productionLine_step cfg s = Some s'" "crashed s = None"
  shows "potential cfg s' < potential cfg s"
  using assms
  by (cases "production_pc s")
     (clarsimp simp: potential_def psum_def csum_def flag_def productionLine_step_def crash_def chan_close_def
        wg_Done_def
      split: if_splits)+

lemma potential_consumption:
  assumes "consumptionLine_step cfg s = Some s'" "crashed s = None"
  shows "potential cfg s' < potential cfg s"
  using assms
  by (cases "consumption_pc s")
     (clarsimp simp: potential_def psum_def csum_def flag_def consumptionLine_step_def crash_def wg_Done_def
      split: if_splits)+

lemma potential_producer:
  assumes "producer_step cfg j s = Some s'" "crashed s = None"
  shows "potential cfg s' < potential cfg s"
proof -
  from assms(1) have j: "j < length (producers s)" by (simp add: producer_step_def split: if_splits)
  obtain wp pt where pt: "producers s ! j = (wp, pt)" by (cases "producers s ! j")
  show ?thesis
    using assms j pt
    by (cases pt)
       (clarsimp simp: potential_def psum_def csum_def flag_def producer_step_def crash_def chan_send_def
          chan_recv_def wg_Done_def produce_def sum_list_map_update
        split: if_splits list.splits prod.splits)+
qed

lemma potential_consumer:
  assumes "consumer_step cfg j s = Some s'" "crashed s = None"
  shows "potential cfg s' < potential cfg s"
proof -
  from assms(1) have j: "j < length (consumers s)" by (simp add: consumer_step_def split: if_splits)
  obtain wc pt where pt: "consumers s ! j = (wc, pt)" by (cases "consumers s ! j")
  show ?thesis
    using assms j pt
    by (cases pt)
       (clarsimp simp: potential_def psum_def csum_def flag_def consumer_step_def crash_def chan_recv_def
          wg_Done_def signal_close_def consume_def sum_list_map_update
        split: if_splits list.splits prod.splits)+
qed

lemma potential_step:
  "potential cfg s' < potential cfg s" if "structure_inv cfg s" "step cfg g s = Some s'"
proof (cases g)
  case Main
  then show ?thesis using that potential_main [of cfg s s'] by (simp add: step_def split: if_splits)
next
  case ProductionLine
  then show ?thesis using that potential_production [of cfg s s'] by (simp add: step_def split: if_splits)
next
  case ConsumptionLine
  then show ?thesis using that potential_consumption [of cfg s s'] by (simp add: step_def split: if_splits)
next
  case (ProducerN j)
  then show ?thesis using that potential_producer [of cfg j s s'] by (simp add: step_def split: if_splits)
next
  case (ConsumerN j)
  then show ?thesis using that potential_consumer [of cfg j s s'] by (simp add: step_def split: if_splits)
qed

lemma m_rank_nonneg: "0 \<le> m_rank x" by (cases x) auto
lemma pl_rank_nonneg: "0 \<le> pl_rank cfg x" by (cases x) auto
lemma cl_rank_nonneg: "0 \<le> cl_rank cfg x" by (cases x) auto
lemma p_rank_nonneg: "0 \<le> p_rank x" by (cases x) auto
lemma c_rank_nonneg: "0 \<le> c_rank x" by (cases x) auto

lemma potential_nonneg: "0 \<le> potential cfg s"
  using m_rank_nonneg [of "main_pc s"] pl_rank_nonneg [of cfg "production_pc s"]
    cl_rank_nonneg [of cfg "consumption_pc s"] psum_nonneg [of p_rank s] csum_nonneg [of c_rank s]
  by (simp add: potential_def p_rank_nonneg c_rank_nonneg flag_def)



subsection \<open>When no goroutine can move\<close>

lemma stuck_goroutine:
  assumes "stuck cfg s"
  shows "step cfg Main s = None" "step cfg ProductionLine s = None"
    "step cfg ConsumptionLine s = None"
    "j < length (producers s) \<Longrightarrow> step cfg (ProducerN j) s = None"
    "j < length (consumers s) \<Longrightarrow> step cfg (ConsumerN j) s = None"
  using assms by (auto simp: stuck_def goroutines_def list_all_iff)

lemma main_blocked:
  assumes "WidgetProductionConsumptionLine_step cfg s = None"
  shows "(main_pc s = M_recv_broken \<and> \<not> brokenWidgetChannel s) \<or>
         (main_pc s = M_wait \<and> wg s \<noteq> 0) \<or> main_pc s = M_return"
  using assms
  by (cases "main_pc s")
     (simp_all add: WidgetProductionConsumptionLine_step_def crash_def signal_close_def
      split: if_splits option.splits)

lemma production_blocked:
  assumes "productionLine_step cfg s = None"
  shows "production_pc s = PL_idle \<or> (production_pc s = PL_wait \<and> productionWaitGroup s \<noteq> 0) \<or>
         production_pc s = PL_exit"
  using assms
  by (cases "production_pc s")
     (simp_all add: productionLine_step_def crash_def chan_close_def wg_Done_def
      split: if_splits option.splits)

lemma consumption_blocked:
  assumes "consumptionLine_step cfg s = None"
  shows "consumption_pc s = CL_idle \<or> (consumption_pc s = CL_wait \<and> consumptionWaitGroup s \<noteq> 0) \<or>
         consumption_pc s = CL_exit"
  using assms
  by (cases "consumption_pc s")
     (simp_all add: consumptionLine_step_def crash_def wg_Done_def split: if_splits option.splits)

lemma producer_blocked:
  assumes "producer_step cfg j s = None" "j < length (producers s)" "producers s ! j = (wp, pt)"
  shows "pt = P_exit \<or> (pt = P_range \<and> \<not> closed (jobChannel s)) \<or>
         (\<exists>i w. pt = P_send i w \<and> \<not> length (buf (widgetChannel s)) < cap (widgetChannel s))"
  using assms
  by (cases pt)
     (simp_all add: producer_step_def crash_def chan_send_def chan_recv_def wg_Done_def produce_def
      split: if_splits list.splits prod.splits)

lemma consumer_blocked:
  assumes "consumer_step cfg j s = None" "j < length (consumers s)" "consumers s ! j = (wc, pt)"
  shows "pt = C_exit \<or> (pt = C_range \<and> buf (widgetChannel s) = [] \<and> \<not> closed (widgetChannel s))"
  using assms
  by (cases pt)
     (simp_all add: consumer_step_def crash_def chan_recv_def wg_Done_def signal_close_def consume_def
      split: if_splits list.splits prod.splits)

lemma sum_list_const:
  fixes f :: "'b \<Rightarrow> int"
  shows "(\<And>x. x \<in> set xs \<Longrightarrow> snd x = c) \<Longrightarrow> sum_list (map (\<lambda>x. f (snd x)) xs) = f c * int (length xs)"
  by (induction xs) (auto simp: algebra_simps)

lemma sum_list_zero_all:
  fixes g :: "'a \<Rightarrow> int"
  assumes "\<And>x. 0 \<le> g x"
  shows "sum_list (map g xs) = 0 \<Longrightarrow> x \<in> set xs \<Longrightarrow> g x = 0"
proof (induction xs)
  case Nil
  then show ?case by simp
next
  case (Cons y ys)
  have "0 \<le> sum_list (map g ys)" by (rule sum_list_nonneg) (use assms in auto)
  then have "g y = 0" "sum_list (map g ys) = 0"
    using Cons.prems(1) assms [of y] by simp_all
  then show ?case using Cons by auto
qed

lemma producers_exited:
  assumes "psum p_alive s = 0"
  shows "\<And>x. x \<in> set (producers s) \<Longrightarrow> snd x = P_exit"
proof -
  fix x assume "x \<in> set (producers s)"
  then have "p_alive (snd x) = 0"
    using sum_list_zero_all [of "\<lambda>x. p_alive (snd x)" "producers s" x] assms
    by (simp add: psum_def p_alive_nonneg)
  then show "snd x = P_exit" by (cases "snd x") auto
qed

lemma consumers_exited:
  assumes "csum c_alive s = 0"
  shows "\<And>x. x \<in> set (consumers s) \<Longrightarrow> snd x = C_exit"
proof -
  fix x assume "x \<in> set (consumers s)"
  then have "c_alive (snd x) = 0"
    using sum_list_zero_all [of "\<lambda>x. c_alive (snd x)" "consumers s" x] assms
    by (simp add: csum_def c_alive_nonneg)
  then show "snd x = C_exit" by (cases "snd x") auto
qed

lemma psum_exited: "psum p_alive s = 0 \<Longrightarrow> psum f s = f P_exit * int (length (producers s))"
  unfolding psum_def [of f] by (rule sum_list_const) (rule producers_exited)

lemma csum_exited: "csum c_alive s = 0 \<Longrightarrow> csum f s = f C_exit * int (length (consumers s))"
  unfolding csum_def [of f] by (rule sum_list_const) (rule consumers_exited)

lemma line_inv_nonneg: "line_inv cfg s \<Longrightarrow> 0 \<le> numWidgets cfg"
  by (simp add: line_inv_def jobs_inv_def next_job_def)

lemma count_True_upto: "0 \<le> n \<Longrightarrow> count (\<lambda>i. True) [1..n] = n"
  by (simp add: count_True)

lemma structure_parts:
  assumes "structure_inv cfg s"
  shows st_jobs_closed: "closed (jobChannel s)"
    and st_cap: "cap (widgetChannel s) = nat (numWidgets cfg)"
    and st_producers: "length (producers s) = pl_started cfg (production_pc s)"
    and st_pwg: "productionWaitGroup s =
        psum p_alive s + pl_added cfg (production_pc s) - int (length (producers s))"
    and st_pl_waited: "pl_waited (production_pc s) \<Longrightarrow> psum p_alive s = 0"
    and st_widgets_closed: "closed (widgetChannel s) = pl_closed (production_pc s)"
    and st_consumers: "length (consumers s) = cl_started cfg (consumption_pc s)"
    and st_cwg: "consumptionWaitGroup s =
        csum c_alive s + cl_added cfg (consumption_pc s) - int (length (consumers s))"
    and st_cl_waited: "cl_waited (consumption_pc s) \<Longrightarrow> csum c_alive s = 0"
    and st_wg: "wg s = flag (production_pc s \<noteq> PL_exit) + flag (consumption_pc s \<noteq> CL_exit)"
    and st_pl_idle: "(production_pc s = PL_idle) = (m_spawned (main_pc s) < 1)"
    and st_cl_idle: "(consumption_pc s = CL_idle) = (m_spawned (main_pc s) < 2)"
    and st_returned: "main_pc s = M_return \<Longrightarrow> wg s = 0"
    and st_waiting: "m_waiting_broken (main_pc s) \<Longrightarrow> 0 < numKth cfg"
    and st_seen: "m_seen_broken (main_pc s) \<Longrightarrow> 0 < numKth cfg \<Longrightarrow> brokenWidgetChannel s"
    and st_quit: "quitChannel s = (0 < numKth cfg \<and> (main_pc s = M_wait \<or> main_pc s = M_return))"
  using assms by (simp_all add: structure_inv_def)

text \<open>A state the program has left by returning from the main goroutine.\<close>

lemma returned_lines:
  assumes "structure_inv cfg s" "wg s = 0"
  shows "production_pc s = PL_exit" "consumption_pc s = CL_exit"
    "psum p_alive s = 0" "csum c_alive s = 0"
    "length (producers s) = length (producerTable cfg)"
    "length (consumers s) = length (consumerTable cfg)"
    "closed (widgetChannel s)"
proof -
  show pl: "production_pc s = PL_exit" and cl: "consumption_pc s = CL_exit"
    using st_wg [OF assms(1)] assms(2) by (simp_all add: flag_def split: if_splits)
  show "psum p_alive s = 0" using st_pl_waited [OF assms(1)] pl by simp
  show "csum c_alive s = 0" using st_cl_waited [OF assms(1)] cl by simp
  show "length (producers s) = length (producerTable cfg)"
    using st_producers [OF assms(1)] pl by simp
  show "length (consumers s) = length (consumerTable cfg)"
    using st_consumers [OF assms(1)] cl by simp
  show "closed (widgetChannel s)" using st_widgets_closed [OF assms(1)] pl by simp
qed

lemma stuck_lines:
  assumes inv: "line_inv cfg s" and stuck: "stuck cfg s" and live: "main_pc s \<noteq> M_return"
  shows "wg s = 0"
proof -
  have S: "structure_inv cfg s" and nc: "crashed s = None"
    and sl: "slot_inv cfg (\<lambda>i. True) s" and wi: "widget_inv cfg s"
    using inv by (simp_all add: line_inv_def)
  have on: "\<not> (crashed s \<noteq> None \<or> main_pc s = M_return)" using nc live by simp
  have m: "(main_pc s = M_recv_broken \<and> \<not> brokenWidgetChannel s) \<or> (main_pc s = M_wait \<and> wg s \<noteq> 0)"
    using main_blocked [of cfg s] stuck_goroutine(1) [OF stuck] on live by (simp add: step_def)
  then have sp: "m_spawned (main_pc s) = 2" by auto
  have pblocked: "snd x = P_exit" if mem: "x \<in> set (producers s)" for x
  proof -
    obtain j where j: "j < length (producers s)" "producers s ! j = x"
      using mem by (auto simp: in_set_conv_nth)
    obtain wp pt where x: "x = (wp, pt)" by (cases x)
    have b: "producer_step cfg j s = None"
      using stuck_goroutine(4) [OF stuck j(1)] on by (simp add: step_def)
    have "\<not> (\<exists>i w. pt = P_send i w \<and> \<not> length (buf (widgetChannel s)) < cap (widgetChannel s))"
    proof
      assume "\<exists>i w. pt = P_send i w \<and> \<not> length (buf (widgetChannel s)) < cap (widgetChannel s)"
      then obtain i w where pt: "pt = P_send i w"
        and full: "\<not> length (buf (widgetChannel s)) < cap (widgetChannel s)" by blast
      have "1 \<le> psum (p_slot (\<lambda>i. True)) s"
        using psum_nth_le [OF j(1), of wp pt "p_slot (\<lambda>i. True)"] j(2) x pt
        by (simp add: p_slot_nonneg)
      moreover have "slots (\<lambda>i. True) s \<le> numWidgets cfg"
        using sl count_True_upto [OF line_inv_nonneg [OF inv]] by (simp add: slot_inv_def)
      moreover have "int (length (buf (widgetChannel s))) \<le> int (length (pushed s))"
        using wi csum_nonneg [of c_holding s] by (simp add: widget_inv_def c_holding_nonneg)
      ultimately have "int (length (buf (widgetChannel s))) < numWidgets cfg"
        using count_nonneg [of "\<lambda>i. True" "buf (jobChannel s)"] count_True [of "pushed s"]
        by (simp add: slots_def)
      then show False using full st_cap [OF S] by simp
    qed
    then have "pt = P_exit"
      using producer_blocked [OF b j(1)] j(2) x st_jobs_closed [OF S] by auto
    then show ?thesis using x by simp
  qed
  have pa: "psum p_alive s = 0"
    using sum_list_const [of "producers s" P_exit p_alive] pblocked by (simp add: psum_def)
  have pl: "production_pc s = PL_exit"
  proof -
    have b: "productionLine_step cfg s = None"
      using stuck_goroutine(2) [OF stuck] on by (simp add: step_def)
    have "production_pc s \<noteq> PL_idle" using st_pl_idle [OF S] sp by simp
    moreover have "productionWaitGroup s = 0" if "production_pc s = PL_wait"
      using st_pwg [OF S] st_producers [OF S] pa that by simp
    ultimately show ?thesis using production_blocked [OF b] by blast
  qed
  then have wc: "closed (widgetChannel s)" using st_widgets_closed [OF S] by simp
  have cblocked: "snd x = C_exit" if mem: "x \<in> set (consumers s)" for x
  proof -
    obtain j where j: "j < length (consumers s)" "consumers s ! j = x"
      using mem by (auto simp: in_set_conv_nth)
    obtain wc' pt where x: "x = (wc', pt)" by (cases x)
    have b: "consumer_step cfg j s = None"
      using stuck_goroutine(5) [OF stuck j(1)] on by (simp add: step_def)
    have "pt = C_exit"
      using consumer_blocked [OF b j(1)] j(2) x wc by auto
    then show ?thesis using x by simp
  qed
  have ca: "csum c_alive s = 0"
    using sum_list_const [of "consumers s" C_exit c_alive] cblocked by (simp add: csum_def)
  have cl: "consumption_pc s = CL_exit"
  proof -
    have b: "consumptionLine_step cfg s = None"
      using stuck_goroutine(3) [OF stuck] on by (simp add: step_def)
    have "consumption_pc s \<noteq> CL_idle" using st_cl_idle [OF S] sp by simp
    moreover have "consumptionWaitGroup s = 0" if "consumption_pc s = CL_wait"
      using st_cwg [OF S] st_consumers [OF S] ca that by simp
    ultimately show ?thesis using consumption_blocked [OF b] by blast
  qed
  show ?thesis using st_wg [OF S] pl cl by (simp add: flag_def)
qed

lemma stuck_waits_broken:
  assumes inv: "line_inv cfg s" and stuck: "stuck cfg s" and live: "main_pc s \<noteq> M_return"
  shows "main_pc s = M_recv_broken \<and> \<not> brokenWidgetChannel s \<and> 0 < numKth cfg"
proof -
  have nc: "crashed s = None" and S: "structure_inv cfg s" using inv by (simp_all add: line_inv_def)
  have "step cfg Main s = None" by (rule stuck_goroutine(1) [OF stuck])
  then have "WidgetProductionConsumptionLine_step cfg s = None"
    using nc live by (simp add: step_def)
  then have "main_pc s = M_recv_broken \<and> \<not> brokenWidgetChannel s"
    using main_blocked [of cfg s] stuck_lines [OF assms] live by blast
  then show ?thesis using st_waiting [OF S] by simp
qed

text \<open>
  With a broken slot among the jobs and at least one producer and one consumer, the
  broken widget cannot be lost: a state in which the main goroutine waits for the
  broken-widget channel and nothing moves does not occur.
\<close>

lemma stuck_returned:
  assumes inv: "line_inv cfg s" and stuck: "stuck cfg s"
    and cfg: "numKth cfg \<le> 0 \<or>
      (numKth cfg \<le> numWidgets cfg \<and> 1 \<le> numProducers cfg \<and> 1 \<le> numConsumers cfg)"
  shows "main_pc s = M_return"
proof (rule ccontr)
  assume live: "main_pc s \<noteq> M_return"
  have S: "structure_inv cfg s" and tk: "token_inv cfg s" and wi: "widget_inv cfg s"
    and sk: "slot_inv cfg (\<lambda>i. i = numKth cfg) s"
    using inv by (simp_all add: line_inv_def)
  have w: "main_pc s = M_recv_broken" "\<not> brokenWidgetChannel s" "0 < numKth cfg"
    using stuck_waits_broken [OF inv stuck live] by simp_all
  then have k: "1 \<le> numKth cfg" "numKth cfg \<le> numWidgets cfg"
    and p: "1 \<le> numProducers cfg" and c: "1 \<le> numConsumers cfg"
    using cfg by simp_all
  have wg0: "wg s = 0" by (rule stuck_lines [OF inv stuck live])
  note R = returned_lines [OF S wg0]
  have nq: "\<not> quitChannel s" using st_quit [OF S] w by simp
  have nd: "\<not> doneChannel s"
    using tk w csum_nonneg [of c_closing_done s]
    by (auto simp: token_inv_def flag_def c_closing_done_nonneg split: if_splits)
  have pf: "0 < psum p_finished s"
    using psum_exited [OF R(3), of p_finished] R(5) p by (simp add: length_producerTable)
  have cf: "0 < csum c_finished s"
    using csum_exited [OF R(4), of c_finished] R(6) c by (simp add: length_consumerTable)
  have jobs: "buf (jobChannel s) = []" using wi nq pf by (simp add: widget_inv_def)
  have wid: "buf (widgetChannel s) = []" using wi nd cf by (simp add: widget_inv_def)
  have "psum (p_slot (\<lambda>i. i = numKth cfg)) s = 0"
    using psum_exited [OF R(3), of "p_slot (\<lambda>i. i = numKth cfg)"] by simp
  then have "count (\<lambda>x. fst x = numKth cfg) (pushed s) = 1"
    using sk nq jobs k count_eq_upto [of "numKth cfg" 1 "numWidgets cfg"]
    by (simp add: slot_inv_def slots_def)
  moreover have "csum c_token s = 0"
    using csum_exited [OF R(4), of c_token] by simp
  ultimately show False
    using tk wid w by (simp add: token_inv_def flag_def)
qed

subsection \<open>Runs and their ends\<close>

lemma run_SomeD:
  assumes "run cfg sched = Some s"
  obtains s0 where "WidgetProductionConsumptionLine_init cfg = Inr s0" "exec cfg sched s0 = Some s"
  using assms by (auto simp: run_def split: sum.splits)

lemma run_line_inv: "run cfg sched = Some s \<Longrightarrow> line_inv cfg s"
  by (erule run_SomeD) (rule reach_line_inv)

lemma run_slot_inv: "run cfg sched = Some s \<Longrightarrow> slot_inv cfg Q s"
  by (erule run_SomeD) (rule reach_slot_inv)


lemma exec_append:
  "exec cfg (a @ b) s = (case exec cfg a s of None \<Rightarrow> None | Some s' \<Rightarrow> exec cfg b s')"
  by (induction a arbitrary: s) (auto split: option.splits)

lemma not_stuck_step: "\<not> stuck cfg s \<Longrightarrow> \<exists>g s'. step cfg g s = Some s'"
  by (auto simp: stuck_def list_all_iff)

text \<open>Every state of a run is followed, after finitely many steps, by one where nothing moves.\<close>

lemma exec_completes:
  "line_inv cfg s \<Longrightarrow> \<exists>more s'. exec cfg more s = Some s' \<and> stuck cfg s'"
proof (induction "nat (potential cfg s)" arbitrary: s rule: less_induct)
  case less
  show ?case
  proof (cases "stuck cfg s")
    case True
    then have "exec cfg [] s = Some s \<and> stuck cfg s" by simp
    then show ?thesis by blast
  next
    case False
    then obtain g a where a: "step cfg g s = Some a" using not_stuck_step by blast
    have S: "structure_inv cfg s" using less.prems by (simp add: line_inv_def)
    have "nat (potential cfg a) < nat (potential cfg s)"
      using potential_step [OF S a] potential_nonneg [of cfg a] by simp
    then obtain more s' where m: "exec cfg more a = Some s'" "stuck cfg s'"
      using less.hyps [OF _ line_inv_step [OF less.prems a]] by blast
    then have "exec cfg (g # more) s = Some s' \<and> stuck cfg s'" using a by simp
    then show ?thesis by blast
  qed
qed

lemma run_completes:
  assumes "run cfg sched = Some s"
  shows "\<exists>more s'. run cfg (sched @ more) = Some s' \<and> stuck cfg s'"
proof -
  obtain more s' where m: "exec cfg more s = Some s'" "stuck cfg s'"
    using exec_completes [OF run_line_inv [OF assms]] by blast
  have "run cfg (sched @ more) = Some s'"
    using assms m(1) by (auto simp: run_def exec_append split: sum.splits)
  then show ?thesis using m(2) by blast
qed

lemma token_parts:
  assumes "token_inv cfg s"
  shows tk_token: "count broken (buf (widgetChannel s)) + csum c_token s + flag (brokenWidgetChannel s) =
        count (\<lambda>x. fst x = numKth cfg) (pushed s)"
    and tk_done: "csum c_closing_done s + flag (doneChannel s) = flag (brokenWidgetChannel s)"
    and tk_reports: "int (broken_reports s) = csum c_closing_broken s + flag (brokenWidgetChannel s)"
    and tk_raised: "int (raised s) = flag (brokenWidgetChannel s)"
  using assms by (simp_all add: token_inv_def)

lemma widget_parts:
  assumes "widget_inv cfg s"
  shows wi_le: "int (length (buf (widgetChannel s))) + csum c_holding s + int (consumed s)
        \<le> int (length (pushed s))"
    and wi_eq: "\<not> doneChannel s \<Longrightarrow>
        int (length (buf (widgetChannel s))) + csum c_holding s + int (consumed s)
          = int (length (pushed s))"
    and wi_jobs: "\<not> quitChannel s \<Longrightarrow> 0 < psum p_finished s \<Longrightarrow> buf (jobChannel s) = []"
    and wi_widgets: "\<not> doneChannel s \<Longrightarrow> 0 < csum c_finished s \<Longrightarrow> buf (widgetChannel s) = []"
  using assms by (simp_all add: widget_inv_def)

lemma line_parts:
  assumes "line_inv cfg s"
  shows li_crashed: "crashed s = None"
    and li_structure: "structure_inv cfg s"
    and li_jobs: "jobs_inv cfg s"
    and li_slots: "slot_inv cfg (\<lambda>i. True) s"
    and li_kth: "slot_inv cfg (\<lambda>i. i = numKth cfg) s"
    and li_token: "token_inv cfg s"
    and li_widget: "widget_inv cfg s"
    and li_below: "below_inv cfg s"
  using assms by (simp_all add: line_inv_def)

lemma c_closing_le_token: "c_closing_broken x \<le> c_token x"
  by (cases x) auto

text \<open>No broken slot among the jobs: nothing is marked broken and the signal is never raised.\<close>

lemma no_broken_slot:
  assumes inv: "line_inv cfg s"
    and k: "numKth cfg \<le> 0 \<or> numWidgets cfg < numKth cfg"
  shows "\<not> brokenWidgetChannel s" "\<not> doneChannel s" "broken_reports s = 0" "raised s = 0"
    "list_all (\<lambda>x. \<not> broken (snd x)) (pushed s)" "csum c_closing_broken s = 0"
proof -
  have "count (\<lambda>i. i = numKth cfg) [1..numWidgets cfg] = 0"
    using k by (auto simp: count_eq_upto)
  then have "count (\<lambda>x. fst x = numKth cfg) (pushed s) \<le> 0"
    using li_kth [OF inv] count_nonneg [of "\<lambda>i. i = numKth cfg" "buf (jobChannel s)"]
      psum_nonneg [of "p_slot (\<lambda>i. i = numKth cfg)" s]
    by (simp add: slot_inv_def slots_def p_slot_nonneg)
  then have z: "flag (brokenWidgetChannel s) \<le> 0"
    using tk_token [OF li_token [OF inv]] count_nonneg [of broken "buf (widgetChannel s)"]
      csum_nonneg [of c_token s]
    by (simp add: c_token_nonneg)
  then show b: "\<not> brokenWidgetChannel s" by (simp add: flag_def split: if_splits)
  show "\<not> doneChannel s"
    using tk_done [OF li_token [OF inv]] b csum_nonneg [of c_closing_done s]
    by (simp add: flag_def c_closing_done_nonneg split: if_splits)
  have "0 \<le> csum c_closing_broken s" by (simp add: csum_nonneg c_closing_broken_nonneg)
  moreover have "int (broken_reports s) = csum c_closing_broken s + flag (brokenWidgetChannel s)"
    by (rule tk_reports [OF li_token [OF inv]])
  moreover have "csum c_token s \<le> 0"
    using tk_token [OF li_token [OF inv]] count_nonneg [of broken "buf (widgetChannel s)"]
      \<open>count (\<lambda>x. fst x = numKth cfg) (pushed s) \<le> 0\<close> b
    by (simp add: flag_def)
  moreover have "csum c_closing_broken s \<le> csum c_token s"
    unfolding csum_def by (rule sum_list_mono) (rule c_closing_le_token)
  ultimately show "broken_reports s = 0" "csum c_closing_broken s = 0"
    using b by (simp_all add: flag_def)
  show "raised s = 0" using tk_raised [OF li_token [OF inv]] b by (simp add: flag_def)
  have "\<not> broken (snd x)" if mem: "x \<in> set (pushed s)" for x
  proof -
    have "1 \<le> fst x \<and> fst x \<le> numWidgets cfg \<and> broken (snd x) = (numKth cfg = fst x)"
      using li_jobs [OF inv] mem by (simp add: jobs_inv_def list_all_iff)
    then show ?thesis using k by auto
  qed
  then show "list_all (\<lambda>x. \<not> broken (snd x)) (pushed s)"
    by (simp add: list_all_iff)
qed


lemma produced_le: "line_inv cfg s \<Longrightarrow> int (produced s) \<le> numWidgets cfg"
  using li_slots [of cfg s] count_True_upto [OF line_inv_nonneg, of cfg s]
    count_nonneg [of "\<lambda>i. True" "buf (jobChannel s)"] psum_nonneg [of "p_slot (\<lambda>i. True)" s]
    count_True [of "pushed s"]
  by (simp add: slot_inv_def slots_def produced_def p_slot_nonneg)

lemma consumed_le: "line_inv cfg s \<Longrightarrow> consumed s \<le> produced s"
  using wi_le [OF li_widget, of cfg s] csum_nonneg [of c_holding s]
  by (simp add: produced_def c_holding_nonneg)



lemma count_pos: "x \<in> set xs \<Longrightarrow> Q x \<Longrightarrow> 1 \<le> count Q xs"
proof (induction xs)
  case Nil
  then show ?case by simp
next
  case (Cons y ys)
  have "0 \<le> count Q ys" by (rule count_nonneg)
  then show ?case using Cons by (cases "x = y") auto
qed

lemma count_distinct:
  assumes "\<And>a. count (\<lambda>x. f x = a) xs \<le> 1"
  shows "distinct (map f xs)"
  using assms
proof (induction xs)
  case Nil
  show ?case by simp
next
  case (Cons x xs)
  have "f x \<notin> f ` set xs"
  proof
    assume "f x \<in> f ` set xs"
    then obtain y where "y \<in> set xs" "f y = f x" by auto
    then have "1 \<le> count (\<lambda>z. f z = f x) xs" by (rule count_pos)
    then show False using Cons.prems [of "f x"] by simp
  qed
  moreover have "distinct (map f xs)"
  proof (rule Cons.IH)
    fix a
    have "count (\<lambda>x. f x = a) xs \<le> count (\<lambda>x. f x = a) (x # xs)" by simp
    then show "count (\<lambda>x. f x = a) xs \<le> 1" using Cons.prems [of a] by linarith
  qed
  ultimately show ?case by simp
qed
section \<open>The counter line hands out one flag at a time\<close>




lemma only_kth_Nil [simp]: "only_kth k []"
  by (simp add: only_kth_def)

lemma only_kth_snoc [simp]:
  "only_kth k (bs @ [b]) = (only_kth k bs \<and> (b \<longrightarrow> int (length bs) = k))"
  by (auto simp: only_kth_def list_all_iff nth_append)













subsection \<open>The widget at the defect index is broken\<close>














section \<open>The claims\<close>

text \<open>
  C1. In every run, every widget pushed to the widget channel comes from a slot \<open>i\<close> of
  \<open>1..numWidgets\<close> and is broken if and only if \<open>i\<close> is the defect index \<open>numKth\<close>,
  whatever the schedule; and no slot is pushed twice.
\<close>

theorem slot_decides_broken:
  assumes "run cfg sched = Some s"
  shows "(\<forall>x \<in> set (pushed s).
            1 \<le> fst x \<and> fst x \<le> numWidgets cfg \<and> broken (snd x) = (fst x = numKth cfg)) \<and>
         distinct (map fst (pushed s))"
proof -
  have "jobs_inv cfg s" by (rule li_jobs [OF run_line_inv [OF assms]])
  then have "\<forall>x \<in> set (pushed s).
      1 \<le> fst x \<and> fst x \<le> numWidgets cfg \<and> broken (snd x) = (numKth cfg = fst x)"
    by (simp add: jobs_inv_def list_all_iff)
  then have a: "\<forall>x \<in> set (pushed s).
      1 \<le> fst x \<and> fst x \<le> numWidgets cfg \<and> broken (snd x) = (fst x = numKth cfg)"
    by (auto simp: eq_commute)
  have "count (\<lambda>x. fst x = a) (pushed s) \<le> 1" for a
  proof -
    have "slot_inv cfg (\<lambda>i. i = a) s" by (rule run_slot_inv [OF assms])
    moreover have "count (\<lambda>i. i = a) [1..numWidgets cfg] \<le> 1" by (simp add: count_eq_upto)
    ultimately show ?thesis
      using count_nonneg [of "\<lambda>i. i = a" "buf (jobChannel s)"] psum_nonneg [of "p_slot (\<lambda>i. i = a)" s]
      by (simp add: slot_inv_def slots_def p_slot_nonneg)
  qed
  then have "distinct (map fst (pushed s))" by (rule count_distinct)
  then show ?thesis using a by simp
qed

theorem slot_decides_broken_witness:
  "run_pushed cfg_race sched_race = Some [(2, True)] \<and>
   list_all (\<lambda>x. broken (snd x) = (fst x = 2)) (pushed (the (run cfg_race sched_race)))"
proof -
  have r: "run_pushed cfg_race sched_race = Some [(2, True)]" by code_simp
  then obtain s where s: "run cfg_race sched_race = Some s" by (auto simp: run_pushed_def)
  have "list_all (\<lambda>x. broken (snd x) = (fst x = 2)) (pushed s)"
    using slot_decides_broken [OF s] by (simp add: list_all_iff cfg_race_def)
  then show ?thesis using r s by simp
qed

text \<open>
  The setup fails for a number of widgets beyond what a channel can hold, whatever the
  machine, and on a machine without the memory for the two channels.
\<close>

lemma huge_numWidgets_panics:
  "WidgetProductionConsumptionLine_init (cfg_huge mem) = Inl MakechanSizeOutOfRange \<and>
   run (cfg_huge mem) [] = None"
  by (simp add: run_def WidgetProductionConsumptionLine_init_def make_chan_def cfg_huge_def
      maxAlloc_def hchanSize_def sizeof_int_def)

lemma small_machine_out_of_memory:
  "WidgetProductionConsumptionLine_init cfg_small_machine = Inl OutOfMemory \<and>
   run cfg_small_machine [] = None"
  by (simp add: run_def WidgetProductionConsumptionLine_init_def make_chan_def
      cfg_small_machine_def maxAlloc_def hchanSize_def sizeof_int_def sizeof_Widget_def)










text \<open>
  C4. With the defect index beyond the last slot the code does not complete: no widget
  is marked broken, and so the broken-widget channel is never closed, but the main
  goroutine waits for it because \<open>numKth > 0\<close>. In no state of any run has the main
  goroutine returned; every run goes on to a state where no goroutine can move, and
  there the main goroutine is blocked in its receive: the Go runtime ends the program
  with a deadlock.
\<close>

theorem defect_beyond_last_slot_deadlocks:
  assumes "run cfg sched = Some s" "numWidgets cfg < numKth cfg"
  shows "main_pc s \<noteq> M_return \<and> \<not> brokenWidgetChannel s \<and>
         list_all (\<lambda>x. \<not> broken (snd x)) (pushed s) \<and>
         (\<exists>more s'. run cfg (sched @ more) = Some s' \<and> stuck cfg s') \<and>
         (stuck cfg s \<longrightarrow> main_pc s = M_recv_broken)"
proof -
  note inv = run_line_inv [OF assms(1)]
  have k: "numKth cfg \<le> 0 \<or> numWidgets cfg < numKth cfg" using assms(2) by simp
  have pos: "0 < numKth cfg" using line_inv_nonneg [OF inv] assms(2) by simp
  note nb = no_broken_slot [OF inv k]
  have live: "main_pc s \<noteq> M_return"
    using st_seen [OF li_structure [OF inv]] pos nb(1) by auto
  moreover have "main_pc s = M_recv_broken" if "stuck cfg s"
    using stuck_waits_broken [OF inv that live] by simp
  ultimately show ?thesis
    using nb(1,5) run_completes [OF assms(1)] by blast
qed

theorem defect_beyond_last_slot_deadlocks_witness:
  "run_stuck cfg_beyond sched_beyond \<and>
   run_summary cfg_beyond sched_beyond = Some (M_recv_broken, None, 1, 1, 0, 0) \<and>
   main_pc (the (run cfg_beyond sched_beyond)) \<noteq> M_return"
proof -
  have r: "run_summary cfg_beyond sched_beyond = Some (M_recv_broken, None, 1, 1, 0, 0)"
    by code_simp
  have st: "run_stuck cfg_beyond sched_beyond" by code_simp
  obtain s where s: "run cfg_beyond sched_beyond = Some s"
    using r by (auto simp: run_summary_def)
  show ?thesis
    using defect_beyond_last_slot_deadlocks [OF s] s st r by (simp add: cfg_beyond_def)
qed



text \<open>
  C6. With no widget to make, no run produces, consumes or reports anything; with
  \<open>numKth \<le> 0\<close> a state where no goroutine can move is one where the main goroutine has
  returned. With \<open>numKth > 0\<close> the code does not complete: the main goroutine never
  returns, and when nothing can move it is blocked in its receive on the broken-widget
  channel.
\<close>

theorem no_widgets_no_work:
  assumes "run cfg sched = Some s" "numWidgets cfg = 0"
  shows "produced s = 0 \<and> consumed s = 0 \<and> broken_reports s = 0 \<and>
         (numKth cfg \<le> 0 \<and> stuck cfg s \<longrightarrow> main_pc s = M_return) \<and>
         (0 < numKth cfg \<longrightarrow> main_pc s \<noteq> M_return \<and> (stuck cfg s \<longrightarrow> main_pc s = M_recv_broken))"
proof -
  note inv = run_line_inv [OF assms(1)]
  have k: "numKth cfg \<le> 0 \<or> numWidgets cfg < numKth cfg" using assms(2) by auto
  note nb = no_broken_slot [OF inv k]
  have p0: "produced s = 0" using produced_le [OF inv] assms(2) by simp
  then have c0: "consumed s = 0" using consumed_le [OF inv] by simp
  have "main_pc s = M_return" if "numKth cfg \<le> 0" "stuck cfg s"
    by (rule stuck_returned [OF inv that(2)]) (use that(1) in simp)
  moreover have "main_pc s \<noteq> M_return" if "0 < numKth cfg"
    using st_seen [OF li_structure [OF inv]] that nb(1) by auto
  moreover have "main_pc s = M_recv_broken" if "0 < numKth cfg" "stuck cfg s"
    using stuck_waits_broken [OF inv that(2)] \<open>0 < numKth cfg \<Longrightarrow> main_pc s \<noteq> M_return\<close> that(1)
    by simp
  ultimately show ?thesis using p0 c0 nb(3) by blast
qed

theorem no_widgets_no_work_witness:
  "run_stuck cfg_empty sched_empty \<and>
   run_summary cfg_empty sched_empty = Some (M_recv_broken, None, 0, 0, 0, 0) \<and>
   main_pc (the (run cfg_empty sched_empty)) \<noteq> M_return"
proof -
  have r: "run_summary cfg_empty sched_empty = Some (M_recv_broken, None, 0, 0, 0, 0)"
    by code_simp
  have st: "run_stuck cfg_empty sched_empty" by code_simp
  obtain s where s: "run cfg_empty sched_empty = Some s"
    using r by (auto simp: run_summary_def)
  show ?thesis
    using no_widgets_no_work [OF s] s st r by (simp add: cfg_empty_def)
qed

text \<open>
  C7. In every run no step panics, so no producer sends on the closed widget channel;
  and when the widget channel is closed, all \<open>numProducers\<close> producers have been
  started and have exited, and no producer can move.
\<close>

theorem widget_channel_closed_after_producers:
  assumes "run cfg sched = Some s"
  shows "crashed s = None \<and>
         (closed (widgetChannel s) \<longrightarrow>
            length (producers s) = nat (numProducers cfg) \<and>
            list_all (\<lambda>x. snd x = P_exit) (producers s) \<and>
            (\<forall>j. step cfg (ProducerN j) s = None))"
proof -
  note inv = run_line_inv [OF assms]
  note S = li_structure [OF inv]
  have "length (producers s) = nat (numProducers cfg) \<and>
        list_all (\<lambda>x. snd x = P_exit) (producers s) \<and>
        (\<forall>j. step cfg (ProducerN j) s = None)" if c: "closed (widgetChannel s)"
  proof -
    have w: "pl_waited (production_pc s)" using st_widgets_closed [OF S] c by simp
    have len: "length (producers s) = nat (numProducers cfg)"
      using st_producers [OF S] w by (simp add: length_producerTable)
    have ex: "\<And>x. x \<in> set (producers s) \<Longrightarrow> snd x = P_exit"
      by (rule producers_exited [OF st_pl_waited [OF S w]])
    have "step cfg (ProducerN j) s = None" for j
    proof (cases "j < length (producers s)")
      case True
      then have "snd (producers s ! j) = P_exit" using ex by simp
      then show ?thesis
        using True by (cases "producers s ! j") (simp add: step_def producer_step_def)
    next
      case False
      then show ?thesis by (simp add: step_def producer_step_def)
    qed
    then show ?thesis using len ex by (simp add: list_all_iff)
  qed
  then show ?thesis using li_crashed [OF inv] by blast
qed

theorem widget_channel_closed_after_producers_witness:
  "closed (widgetChannel (the (run cfg_plain sched_plain))) \<and>
   length (producers (the (run cfg_plain sched_plain))) = 1 \<and>
   list_all (\<lambda>x. snd x = P_exit) (producers (the (run cfg_plain sched_plain))) \<and>
   step cfg_plain (ProducerN 0) (the (run cfg_plain sched_plain)) = None"
proof -
  have r: "map_option (\<lambda>s. closed (widgetChannel s)) (run cfg_plain sched_plain) = Some True"
    by code_simp
  then obtain s where s: "run cfg_plain sched_plain = Some s" by auto
  have "closed (widgetChannel s)" using r s by simp
  then show ?thesis
    using widget_channel_closed_after_producers [OF s] s by (simp add: cfg_plain_def)
qed




text \<open>
  C10. A negative number of widgets never reaches the first \<open>go\<close> statement: making the
  job channel panics, so there is no run at all.
\<close>

theorem negative_numWidgets_panics:
  assumes "numWidgets cfg < 0"
  shows "WidgetProductionConsumptionLine_init cfg = Inl MakechanSizeOutOfRange \<and>
         run cfg sched = None"
  using init_Inl [OF assms] by (simp add: run_def)

theorem negative_numWidgets_panics_witness:
  "WidgetProductionConsumptionLine_init cfg_negative = Inl MakechanSizeOutOfRange \<and>
   run cfg_negative [Main] = None"
  using negative_numWidgets_panics [of cfg_negative "[Main]"] by (simp add: cfg_negative_def)

end
